theory Spec2Isabelle
  imports Complex_Main
begin

section \<open>Data model of the HPYP model core (hpyp\_model.cc)\<close>

text \<open>
  The file under verification is \<^verbatim>\<open>src/libplump/hpyp_model.cc\<close>. Its collaborators
  (the restaurants, the context tree, the parameter provider, the numeric utilities) are
  declared in headers that are not part of the sources at hand; they enter the
  embedding as records of operations, so every theorem about a function of
  \<^verbatim>\<open>HPYPModel\<close> holds for each implementation of the collaborators.

  Conventions of the embedding:
  \<^item> \<^verbatim>\<open>double\<close> is idealised as \<open>real\<close>; \<^verbatim>\<open>e_type\<close>, \<^verbatim>\<open>l_type\<close> and the loop
    indices are unbounded integers (no path is long enough to wrap an index);
  \<^item> a \<^verbatim>\<open>void*\<close> payload is an address (\<open>nat\<close>) into a store that maps each address
    to the restaurant state it points to;
  \<^item> undefined behaviour and failed assertions are error values.
\<close>

type_synonym e_type = int
type_synonym l_type = int
type_synonym payload = nat
type_synonym d_vec = "real list"

datatype error =
    OutOfRange
  | EmptyContainer
  | NullDereference
  | AssertionFailed

record WrappedNode =
  node_start :: l_type
  node_end :: l_type
  depth :: l_type
  payload :: payload

type_synonym WrappedNodeList = "WrappedNode list"

text \<open>\<^verbatim>\<open>v[i]\<close> on a \<^verbatim>\<open>std::vector\<close>: reading outside the vector is undefined behaviour.\<close>

definition vec_at :: "'a list \<Rightarrow> int \<Rightarrow> error + 'a" where
  "vec_at v i = (if 0 \<le> i \<and> i < int (length v) then Inr (v ! nat i) else Inl OutOfRange)"

text \<open>\<^verbatim>\<open>v.back()\<close>: undefined on an empty container.\<close>

definition vec_back :: "'a list \<Rightarrow> error + 'a" where
  "vec_back v = (if v = [] then Inl EmptyContainer else Inr (last v))"

text \<open>
  The restaurant interface (\<^verbatim>\<open>IAddRemoveRestaurant\<close>, and \<^verbatim>\<open>BaseCompactRestaurant\<close> for
  \<^verbatim>\<open>setT\<close>/\<^verbatim>\<open>setC\<close>). The restaurant object itself is \<^verbatim>\<open>const\<close>: an operation reads or
  writes the payload it is handed, and may draw from the random source \<open>'g\<close>.
  \<open>'r\<close> is the state behind a payload pointer, \<open>'a\<close> the additional data of a node.
\<close>

record ('r, 'g, 'a) Restaurant =
  computeProbability :: "'r \<Rightarrow> e_type \<Rightarrow> real \<Rightarrow> real \<Rightarrow> real \<Rightarrow> real"
  addCustomer :: "'r \<Rightarrow> e_type \<Rightarrow> real \<Rightarrow> real \<Rightarrow> real \<Rightarrow> 'a option \<Rightarrow> real \<Rightarrow> 'g \<Rightarrow> real \<times> 'r \<times> 'g"
  removeCustomer :: "'r \<Rightarrow> e_type \<Rightarrow> real \<Rightarrow> 'a option \<Rightarrow> real \<Rightarrow> 'g \<Rightarrow> real \<times> 'r \<times> 'g"
  updateAfterSplit :: "'r \<Rightarrow> 'r \<Rightarrow> real \<Rightarrow> real \<Rightarrow> bool \<Rightarrow> 'g \<Rightarrow> 'r \<times> 'r \<times> 'g"
  getTypeVector :: "'r \<Rightarrow> e_type list"
  getC :: "'r \<Rightarrow> e_type \<Rightarrow> int"
  getC_total :: "'r \<Rightarrow> int"
  getT :: "'r \<Rightarrow> e_type \<Rightarrow> int"
  getT_total :: "'r \<Rightarrow> int"
  setT :: "'r \<Rightarrow> e_type \<Rightarrow> int \<Rightarrow> 'r"
  setC :: "'r \<Rightarrow> e_type \<Rightarrow> int \<Rightarrow> 'r"
  createAdditionalData :: "'r \<Rightarrow> real \<Rightarrow> real \<Rightarrow> 'a"
  restaurant_checkConsistency :: "'r \<Rightarrow> bool"
  factory_make :: "'r"

datatype InsertAction =
    INSERT_ACTION_NO_SPLIT
  | INSERT_ACTION_SPLIT
  | INSERT_ACTION_SPLIT_SUFFIX

record InsertionResult =
  ir_action :: InsertAction
  ir_path :: WrappedNodeList
  ir_splitChild :: WrappedNode

text \<open>
  The context tree (\<^verbatim>\<open>ContextTree\<close>) with state \<open>'t\<close>. The lookups read the tree and the
  sequence; \<^verbatim>\<open>insert\<close> changes the tree and, through the node manager, allocates the
  payloads of new nodes. A \<^verbatim>\<open>DFSPathIterator\<close> is the list of the paths it yields, the
  current path first.
\<close>

record ('t, 'r) ContextTree =
  findLongestSuffix :: "'t \<Rightarrow> e_type list \<Rightarrow> l_type \<Rightarrow> l_type \<Rightarrow> WrappedNodeList"
  findLongestSuffixVirtual :: "'t \<Rightarrow> e_type list \<Rightarrow> l_type \<Rightarrow> l_type \<Rightarrow> int \<times> WrappedNodeList"
  findNode :: "'t \<Rightarrow> e_type list \<Rightarrow> l_type \<Rightarrow> l_type \<Rightarrow> WrappedNodeList"
  tree_insert :: "'t \<Rightarrow> e_type list \<Rightarrow> (payload \<Rightarrow> 'r) \<Rightarrow> l_type \<Rightarrow> l_type
                   \<Rightarrow> InsertionResult \<times> 't \<times> (payload \<Rightarrow> 'r)"
  getDFSPathIterator :: "'t \<Rightarrow> WrappedNodeList list"

text \<open>The parameter provider (\<^verbatim>\<open>IParameters\<close>) with state \<open>'p\<close>.\<close>

record ('p, 'r) Parameters =
  getDiscounts :: "'p \<Rightarrow> WrappedNodeList \<Rightarrow> d_vec"
  getConcentrations :: "'p \<Rightarrow> WrappedNodeList \<Rightarrow> d_vec \<Rightarrow> d_vec"
  getDiscount :: "'p \<Rightarrow> l_type \<Rightarrow> l_type \<Rightarrow> real"
  getConcentration :: "'p \<Rightarrow> real \<Rightarrow> l_type \<Rightarrow> l_type \<Rightarrow> real"
  extendDiscounts :: "'p \<Rightarrow> WrappedNodeList \<Rightarrow> d_vec \<Rightarrow> d_vec"
  extendConcentrations :: "'p \<Rightarrow> WrappedNodeList \<Rightarrow> d_vec \<Rightarrow> d_vec \<Rightarrow> d_vec"
  accumulateParameterGradient ::
    "'p \<Rightarrow> (payload \<Rightarrow> 'r) \<Rightarrow> WrappedNodeList \<Rightarrow> d_vec \<Rightarrow> d_vec \<Rightarrow> d_vec \<Rightarrow> e_type \<Rightarrow> 'p"
  stepParameterGradient :: "'p \<Rightarrow> real \<Rightarrow> 'p"

text \<open>
  The code of the collaborators an \<^verbatim>\<open>HPYPModel\<close> refers to (its members
  \<^verbatim>\<open>restaurant\<close>, \<^verbatim>\<open>contextTree\<close> and \<^verbatim>\<open>parameters\<close>).
\<close>

record ('r, 'g, 'a, 't, 'p) Env =
  restaurant :: "('r, 'g, 'a) Restaurant"
  contextTree :: "('t, 'r) ContextTree"
  parameters :: "('p, 'r) Parameters"

text \<open>
  The state of an \<^verbatim>\<open>HPYPModel\<close>: the sequence, the state of the tree and of the parameter
  provider, \<^verbatim>\<open>numTypes\<close> and \<^verbatim>\<open>baseProb\<close>, the payloads the nodes point to, the random
  source the restaurants draw from, and the state of the restaurant's factory: the
  payloads that \<^verbatim>\<open>getFactory().make()\<close> has handed out to the model and that
  \<^verbatim>\<open>recycle\<close> has not taken back. A pointer to such a payload is its index in
  \<open>outstanding\<close>; no node of the tree points there.
\<close>

record ('r, 'g, 't, 'p) HPYPModel =
  seq :: "e_type list"
  tree :: 't
  params :: 'p
  numTypes :: int
  baseProb :: real
  store :: "payload \<Rightarrow> 'r"
  rng :: 'g
  outstanding :: "'r list"

text \<open>
  The constructor: \<^verbatim>\<open>baseProb = 1./((double) numTypes)\<close>. The factory has handed out no
  payload to the model yet.
\<close>

definition new_HPYPModel ::
  "e_type list \<Rightarrow> 't \<Rightarrow> 'p \<Rightarrow> int \<Rightarrow> (payload \<Rightarrow> 'r) \<Rightarrow> 'g \<Rightarrow> ('r, 'g, 't, 'p) HPYPModel" where
  "new_HPYPModel sq t ps n st g =
     \<lparr>seq = sq, tree = t, params = ps, numTypes = n, baseProb = 1 / real_of_int n,
      store = st, rng = g, outstanding = []\<rparr>"

section \<open>Path operations\<close>

text \<open>
  \<^verbatim>\<open>HPYPModel::computeProbabilityPath\<close>. The loop walks the path from its first node,
  with \<open>j\<close> counting the nodes passed and \<open>prob\<close> the probability pushed last.
\<close>

fun computeProbabilityPath_loop ::
  "('r, 'g, 'a) Restaurant \<Rightarrow> (payload \<Rightarrow> 'r) \<Rightarrow> WrappedNodeList \<Rightarrow> d_vec \<Rightarrow> d_vec \<Rightarrow> e_type
    \<Rightarrow> int \<Rightarrow> real \<Rightarrow> d_vec \<Rightarrow> error + d_vec" where
  "computeProbabilityPath_loop R st [] discount_path concentration_path obs j prob out = Inr out"
| "computeProbabilityPath_loop R st (it # rest) discount_path concentration_path obs j prob out =
     (case vec_at discount_path j of Inl e \<Rightarrow> Inl e | Inr d \<Rightarrow>
      case vec_at concentration_path j of Inl e \<Rightarrow> Inl e | Inr a \<Rightarrow>
        (let prob' = computeProbability R (st (payload it)) obs prob d a
         in computeProbabilityPath_loop R st rest discount_path concentration_path obs
              (j + 1) prob' (out @ [prob'])))"

definition computeProbabilityPath ::
  "('r, 'g, 'a, 't, 'p) Env \<Rightarrow> ('r, 'g, 't, 'p) HPYPModel \<Rightarrow> WrappedNodeList \<Rightarrow> d_vec \<Rightarrow> d_vec
    \<Rightarrow> e_type \<Rightarrow> error + d_vec" where
  "computeProbabilityPath E m pth discount_path concentration_path obs =
     computeProbabilityPath_loop (restaurant E) (store m) pth discount_path concentration_path
       obs 0 (baseProb m) [baseProb m]"

text \<open>
  \<^verbatim>\<open>HPYPModel::updatePath\<close>. The reverse iterator runs over the reversed path; \<open>j\<close> starts
  at \<^verbatim>\<open>path.size()-1\<close> and is decremented with it (the decrement after the root is never
  read). The sixth argument of \<^verbatim>\<open>addCustomer\<close> is \<^verbatim>\<open>NULL\<close>.
\<close>

fun updatePath_loop ::
  "('r, 'g, 'a) Restaurant \<Rightarrow> WrappedNodeList \<Rightarrow> d_vec \<Rightarrow> d_vec \<Rightarrow> d_vec \<Rightarrow> e_type
    \<Rightarrow> int \<Rightarrow> real \<Rightarrow> (payload \<Rightarrow> 'r) \<times> 'g \<Rightarrow> error + (payload \<Rightarrow> 'r) \<times> 'g" where
  "updatePath_loop R [] prob_path discount_path concentration_path obs j newTable s = Inr s"
| "updatePath_loop R (it # rest) prob_path discount_path concentration_path obs j newTable s =
     (case vec_at prob_path j of Inl e \<Rightarrow> Inl e | Inr p \<Rightarrow>
      case vec_at discount_path j of Inl e \<Rightarrow> Inl e | Inr d \<Rightarrow>
      case vec_at concentration_path j of Inl e \<Rightarrow> Inl e | Inr a \<Rightarrow>
        (case addCustomer R (fst s (payload it)) obs p d a None newTable (snd s) of
           (newTable', r', g') \<Rightarrow>
             if newTable' = 0 then Inr ((fst s)(payload it := r'), g')
             else updatePath_loop R rest prob_path discount_path concentration_path obs
                    (j - 1) newTable' ((fst s)(payload it := r'), g')))"

definition updatePath ::
  "('r, 'g, 'a, 't, 'p) Env \<Rightarrow> ('r, 'g, 't, 'p) HPYPModel \<Rightarrow> WrappedNodeList \<Rightarrow> d_vec \<Rightarrow> d_vec
    \<Rightarrow> d_vec \<Rightarrow> e_type \<Rightarrow> error + ('r, 'g, 't, 'p) HPYPModel" where
  "updatePath E m pth prob_path discount_path concentration_path obs =
     (case updatePath_loop (restaurant E) (rev pth) prob_path discount_path concentration_path
             obs (int (length pth) - 1) 1 (store m, rng m) of
        Inl e \<Rightarrow> Inl e
      | Inr (st', g') \<Rightarrow> Inr (m\<lparr>store := st', rng := g'\<rparr>))"

text \<open>
  \<^verbatim>\<open>HPYPModel::removeObservationFromPath\<close>. The additional data of a node is handed to
  \<^verbatim>\<open>removeCustomer\<close> only when \<^verbatim>\<open>payloadDataPath\<close> is as long as the path.
\<close>

fun removeObservationFromPath_loop ::
  "('r, 'g, 'a) Restaurant \<Rightarrow> WrappedNodeList \<Rightarrow> int \<Rightarrow> d_vec \<Rightarrow> e_type \<Rightarrow> 'a list
    \<Rightarrow> int \<Rightarrow> real \<Rightarrow> (payload \<Rightarrow> 'r) \<times> 'g \<Rightarrow> error + (payload \<Rightarrow> 'r) \<times> 'g" where
  "removeObservationFromPath_loop R [] sz discountPath obs payloadDataPath j frac_t s = Inr s"
| "removeObservationFromPath_loop R (it # rest) sz discountPath obs payloadDataPath j frac_t s =
     (case (if int (length payloadDataPath) = sz
            then (case vec_at payloadDataPath j of Inl e \<Rightarrow> Inl e | Inr x \<Rightarrow> Inr (Some x))
            else Inr None) of
        Inl e \<Rightarrow> Inl e
      | Inr payloadData \<Rightarrow>
     (case vec_at discountPath j of Inl e \<Rightarrow> Inl e | Inr d \<Rightarrow>
        (case removeCustomer R (fst s (payload it)) obs d payloadData frac_t (snd s) of
           (frac_t', r', g') \<Rightarrow>
             if frac_t' = 0 then Inr ((fst s)(payload it := r'), g')
             else removeObservationFromPath_loop R rest sz discountPath obs payloadDataPath
                    (j - 1) frac_t' ((fst s)(payload it := r'), g'))))"

definition removeObservationFromPath ::
  "('r, 'g, 'a, 't, 'p) Env \<Rightarrow> ('r, 'g, 't, 'p) HPYPModel \<Rightarrow> WrappedNodeList \<Rightarrow> d_vec
    \<Rightarrow> e_type \<Rightarrow> 'a list \<Rightarrow> error + ('r, 'g, 't, 'p) HPYPModel" where
  "removeObservationFromPath E m pth discountPath obs payloadDataPath =
     (case removeObservationFromPath_loop (restaurant E) (rev pth) (int (length pth))
             discountPath obs payloadDataPath (int (length pth) - 1) 1 (store m, rng m) of
        Inl e \<Rightarrow> Inl e
      | Inr (st', g') \<Rightarrow> Inr (m\<lparr>store := st', rng := g'\<rparr>))"

section \<open>Insertion and removal of observations\<close>

definition insertRoot ::
  "('r, 'g, 'a, 't, 'p) Env \<Rightarrow> ('r, 'g, 't, 'p) HPYPModel \<Rightarrow> e_type
    \<Rightarrow> error + ('r, 'g, 't, 'p) HPYPModel" where
  "insertRoot E m obs =
     (let root_path = findLongestSuffix (contextTree E) (tree m) (seq m) 0 0;
          discount_path = getDiscounts (parameters E) (params m) root_path;
          concentration_path =
            getConcentrations (parameters E) (params m) root_path discount_path
      in case computeProbabilityPath E m root_path discount_path concentration_path obs of
           Inl e \<Rightarrow> Inl e
         | Inr prob_path \<Rightarrow>
             updatePath E m root_path prob_path discount_path concentration_path obs)"

text \<open>
  \<^verbatim>\<open>HPYPModel::handleSplit\<close>, with its two assertions; \<^verbatim>\<open>updateAfterSplit\<close> is called with
  its default \<^verbatim>\<open>onlyNew = false\<close>.
\<close>

definition handleSplit ::
  "('r, 'g, 'a, 't, 'p) Env \<Rightarrow> ('r, 'g, 't, 'p) HPYPModel \<Rightarrow> WrappedNode \<Rightarrow> WrappedNode
    \<Rightarrow> WrappedNode \<Rightarrow> error + ('r, 'g, 't, 'p) HPYPModel" where
  "handleSplit E m nodeA nodeB nodeC =
     (let lengthA = node_end nodeA - node_start nodeA;
          lengthB = node_end nodeB - node_start nodeB;
          lengthC = node_end nodeC - node_start nodeC
      in if \<not> (lengthA < lengthB \<and> lengthA < lengthC) then Inl AssertionFailed
         else if \<not> lengthC < lengthB then Inl AssertionFailed
         else
           (let discBBeforeSplit = getDiscount (parameters E) (params m) lengthA lengthB;
                discBAfterSplit = getDiscount (parameters E) (params m) lengthC lengthB
            in case updateAfterSplit (restaurant E) (store m (payload nodeB))
                      (store m (payload nodeC)) discBBeforeSplit discBAfterSplit False (rng m) of
                 (rB, rC, g') \<Rightarrow>
                   Inr (m\<lparr>store := (store m)(payload nodeB := rB, payload nodeC := rC),
                          rng := g'\<rparr>)))"

text \<open>
  \<^verbatim>\<open>HPYPModel::insertContext\<close>. The iterator \<open>i\<close> is an index into the path, starting at
  \<^verbatim>\<open>end()\<close>.
\<close>

definition insertContext ::
  "('r, 'g, 'a, 't, 'p) Env \<Rightarrow> ('r, 'g, 't, 'p) HPYPModel \<Rightarrow> l_type \<Rightarrow> l_type
    \<Rightarrow> error + WrappedNodeList \<times> ('r, 'g, 't, 'p) HPYPModel" where
  "insertContext E m start stop =
     (case tree_insert (contextTree E) (tree m) (seq m) (store m) start stop of
        (insertionResult, t', st') \<Rightarrow>
          (let m1 = m\<lparr>tree := t', store := st'\<rparr>
           in if ir_action insertionResult \<noteq> INSERT_ACTION_NO_SPLIT then
                (let i0 = int (length (ir_path insertionResult));
                     i = (case ir_action insertionResult of
                            INSERT_ACTION_SPLIT \<Rightarrow> i0 - 2
                          | INSERT_ACTION_SPLIT_SUFFIX \<Rightarrow> i0 - 1
                          | INSERT_ACTION_NO_SPLIT \<Rightarrow> i0)
                 in case vec_at (ir_path insertionResult) i of
                      Inl e \<Rightarrow> Inl e
                    | Inr nodeC \<Rightarrow>
                   (case vec_at (ir_path insertionResult) (i - 1) of
                      Inl e \<Rightarrow> Inl e
                    | Inr nodeA \<Rightarrow>
                   (case handleSplit E m1 nodeA (ir_splitChild insertionResult) nodeC of
                      Inl e \<Rightarrow> Inl e
                    | Inr m2 \<Rightarrow> Inr (ir_path insertionResult, m2))))
              else Inr (ir_path insertionResult, m1)))"

text \<open>\<^verbatim>\<open>HPYPModel::insertContextAndObservation\<close>; the step size \<^verbatim>\<open>10e-4\<close> is \<open>1/1000\<close>.\<close>

definition insertContextAndObservation ::
  "('r, 'g, 'a, 't, 'p) Env \<Rightarrow> ('r, 'g, 't, 'p) HPYPModel \<Rightarrow> l_type \<Rightarrow> l_type \<Rightarrow> e_type
    \<Rightarrow> error + d_vec \<times> ('r, 'g, 't, 'p) HPYPModel" where
  "insertContextAndObservation E m start stop obs =
     (case insertContext E m start stop of
        Inl e \<Rightarrow> Inl e
      | Inr (pth, m1) \<Rightarrow>
          (let discountPath = getDiscounts (parameters E) (params m1) pth;
               concentrationPath = getConcentrations (parameters E) (params m1) pth discountPath
           in case computeProbabilityPath E m1 pth discountPath concentrationPath obs of
                Inl e \<Rightarrow> Inl e
              | Inr probabilityPath \<Rightarrow>
                  (let m2 = m1\<lparr>params := accumulateParameterGradient (parameters E) (params m1)
                                   (store m1) pth probabilityPath discountPath concentrationPath obs\<rparr>
                   in case updatePath E m2 pth probabilityPath discountPath concentrationPath obs of
                        Inl e \<Rightarrow> Inl e
                      | Inr m3 \<Rightarrow>
                          Inr (probabilityPath,
                               m3\<lparr>params := stepParameterGradient (parameters E) (params m3)
                                                (1 / 1000)\<rparr>))))"

definition insertObservation ::
  "('r, 'g, 'a, 't, 'p) Env \<Rightarrow> ('r, 'g, 't, 'p) HPYPModel \<Rightarrow> l_type \<Rightarrow> l_type \<Rightarrow> e_type
    \<Rightarrow> WrappedNodeList option \<Rightarrow> error + d_vec \<times> ('r, 'g, 't, 'p) HPYPModel" where
  "insertObservation E m start stop obs cached_path =
     (let pth = (case cached_path of
                   Some cp \<Rightarrow> cp
                 | None \<Rightarrow> findLongestSuffix (contextTree E) (tree m) (seq m) start stop);
          discount_path = getDiscounts (parameters E) (params m) pth;
          concentration_path = getConcentrations (parameters E) (params m) pth discount_path
      in case computeProbabilityPath E m pth discount_path concentration_path obs of
           Inl e \<Rightarrow> Inl e
         | Inr prob_path \<Rightarrow>
            (case updatePath E m pth prob_path discount_path concentration_path obs of
               Inl e \<Rightarrow> Inl e
             | Inr m' \<Rightarrow> Inr (prob_path, m')))"

text \<open>
  \<^verbatim>\<open>HPYPModel::removeObservation\<close>. The assertion
  \<^verbatim>\<open>assert(path.back().end == (*cached_path).back().end)\<close> stands after the \<^verbatim>\<open>if\<close>/\<^verbatim>\<open>else\<close>
  that chooses the path, so it is evaluated on both branches (assertions enabled); its
  left operand is evaluated first here.
\<close>

definition removeObservation ::
  "('r, 'g, 'a, 't, 'p) Env \<Rightarrow> ('r, 'g, 't, 'p) HPYPModel \<Rightarrow> l_type \<Rightarrow> l_type \<Rightarrow> e_type
    \<Rightarrow> 'a list \<Rightarrow> WrappedNodeList option \<Rightarrow> error + ('r, 'g, 't, 'p) HPYPModel" where
  "removeObservation E m start stop obs payloadDataPath cached_path =
     (let pth = (case cached_path of
                   Some cp \<Rightarrow> cp
                 | None \<Rightarrow> findLongestSuffix (contextTree E) (tree m) (seq m) start stop)
      in case vec_back pth of
           Inl e \<Rightarrow> Inl e
         | Inr path_back \<Rightarrow>
        (case cached_path of
           None \<Rightarrow> Inl NullDereference
         | Some cp \<Rightarrow>
        (case vec_back cp of
           Inl e \<Rightarrow> Inl e
         | Inr cached_back \<Rightarrow>
             if node_end path_back \<noteq> node_end cached_back then Inl AssertionFailed
             else
               (let discountPath = getDiscounts (parameters E) (params m) pth
                in removeObservationFromPath E m pth discountPath obs payloadDataPath))))"

section \<open>Losses\<close>

text \<open>
  \<^verbatim>\<open>HPYPModel::computeLosses\<close> (the progress output to \<^verbatim>\<open>std::cerr\<close> left out). The loop
  runs \<open>i\<close> from \<^verbatim>\<open>start+1\<close> while \<^verbatim>\<open>i < stop\<close>.
\<close>

function computeLosses_loop ::
  "('r, 'g, 'a, 't, 'p) Env \<Rightarrow> l_type \<Rightarrow> l_type \<Rightarrow> l_type \<Rightarrow> ('r, 'g, 't, 'p) HPYPModel
    \<Rightarrow> d_vec \<Rightarrow> error + d_vec \<times> ('r, 'g, 't, 'p) HPYPModel" where
  "computeLosses_loop E start stop i m losses =
     (if i < stop then
        (case vec_at (seq m) i of
           Inl e \<Rightarrow> Inl e
         | Inr obs \<Rightarrow>
        (case insertContextAndObservation E m start i obs of
           Inl e \<Rightarrow> Inl e
         | Inr (prob_path, m') \<Rightarrow>
        (case vec_at prob_path (int (length prob_path) - 2) of
           Inl e \<Rightarrow> Inl e
         | Inr prob \<Rightarrow>
             computeLosses_loop E start stop (i + 1) m' (losses @ [- log 2 prob]))))
      else Inr (losses, m))"
  by pat_completeness auto
termination
  by (relation "measure (\<lambda>(E, start, stop, i, m, losses). nat (stop - i))") auto

definition computeLosses ::
  "('r, 'g, 'a, 't, 'p) Env \<Rightarrow> ('r, 'g, 't, 'p) HPYPModel \<Rightarrow> l_type \<Rightarrow> l_type
    \<Rightarrow> error + d_vec \<times> ('r, 'g, 't, 'p) HPYPModel" where
  "computeLosses E m start stop =
     (let losses = [log 2 (real_of_int (numTypes m))]
      in case vec_at (seq m) start of
           Inl e \<Rightarrow> Inl e
         | Inr obs \<Rightarrow>
        (case insertRoot E m obs of
           Inl e \<Rightarrow> Inl e
         | Inr m1 \<Rightarrow> computeLosses_loop E start stop (start + 1) m1 losses))"

section \<open>Predictive queries\<close>

text \<open>
  Each query returns its value together with the state of the model after the call, so
  that what it leaves unchanged can be stated. The lookups of the tree and the getters of
  the parameter provider are read-only.
\<close>

definition predict ::
  "('r, 'g, 'a, 't, 'p) Env \<Rightarrow> ('r, 'g, 't, 'p) HPYPModel \<Rightarrow> l_type \<Rightarrow> l_type \<Rightarrow> e_type
    \<Rightarrow> error + real \<times> ('r, 'g, 't, 'p) HPYPModel" where
  "predict E m start stop obs =
     (let pth = findLongestSuffix (contextTree E) (tree m) (seq m) start stop;
          discount_path = getDiscounts (parameters E) (params m) pth;
          concentration_path = getConcentrations (parameters E) (params m) pth discount_path
      in case computeProbabilityPath E m pth discount_path concentration_path obs of
           Inl e \<Rightarrow> Inl e
         | Inr prob_path \<Rightarrow>
             (case vec_back prob_path of Inl e \<Rightarrow> Inl e | Inr p \<Rightarrow> Inr (p, m)))"

definition predictBelow ::
  "('r, 'g, 'a, 't, 'p) Env \<Rightarrow> ('r, 'g, 't, 'p) HPYPModel \<Rightarrow> l_type \<Rightarrow> l_type \<Rightarrow> e_type
    \<Rightarrow> error + real \<times> ('r, 'g, 't, 'p) HPYPModel" where
  "predictBelow E m start stop obs =
     (let pth = snd (findLongestSuffixVirtual (contextTree E) (tree m) (seq m) start stop);
          discount_path = getDiscounts (parameters E) (params m) pth;
          concentration_path = getConcentrations (parameters E) (params m) pth discount_path
      in case computeProbabilityPath E m pth discount_path concentration_path obs of
           Inl e \<Rightarrow> Inl e
         | Inr prob_path \<Rightarrow>
             (case vec_back prob_path of Inl e \<Rightarrow> Inl e | Inr p \<Rightarrow> Inr (p, m)))"

text \<open>
  Modelled from the spec: the factory of the restaurant is not among the sources.
  \<^verbatim>\<open>make()\<close> returns a pointer to a fresh payload, which joins the outstanding ones;
  \<^verbatim>\<open>recycle(p)\<close> takes the payload behind \<open>p\<close> back.
\<close>

definition getFactory_make ::
  "('r, 'g, 'a, 't, 'p) Env \<Rightarrow> ('r, 'g, 't, 'p) HPYPModel \<Rightarrow> nat \<times> ('r, 'g, 't, 'p) HPYPModel" where
  "getFactory_make E m =
     (length (outstanding m),
      m\<lparr>outstanding := outstanding m @ [factory_make (restaurant E)]\<rparr>)"

definition getFactory_recycle ::
  "nat \<Rightarrow> ('r, 'g, 't, 'p) HPYPModel \<Rightarrow> ('r, 'g, 't, 'p) HPYPModel" where
  "getFactory_recycle p m =
     m\<lparr>outstanding := take p (outstanding m) @ drop (Suc p) (outstanding m)\<rparr>"

text \<open>
  \<^verbatim>\<open>HPYPModel::predictWithFragmentation\<close>. \<open>splitNode\<close> is the pointer that
  \<^verbatim>\<open>getFactory().make()\<close> returns. \<^verbatim>\<open>updateAfterSplit\<close> is handed the payload of the last
  node of the path and the payload behind \<open>splitNode\<close> through pointers, so what it leaves
  in them is written back; \<^verbatim>\<open>computeProbability\<close> reads the payload behind \<open>splitNode\<close>, and
  \<^verbatim>\<open>recycle(splitNode)\<close> is the last statement of the branch. The iterator \<open>it\<close> is an
  index into the path.
\<close>

definition predictWithFragmentation ::
  "('r, 'g, 'a, 't, 'p) Env \<Rightarrow> ('r, 'g, 't, 'p) HPYPModel \<Rightarrow> l_type \<Rightarrow> l_type \<Rightarrow> e_type
    \<Rightarrow> error + real \<times> ('r, 'g, 't, 'p) HPYPModel" where
  "predictWithFragmentation E m start stop obs =
     (let pth = findLongestSuffixVirtual (contextTree E) (tree m) (seq m) start stop;
          discountPath = getDiscounts (parameters E) (params m) (snd pth);
          concentrationPath =
            getConcentrations (parameters E) (params m) (snd pth) discountPath
      in case computeProbabilityPath E m (snd pth) discountPath concentrationPath obs of
           Inl e \<Rightarrow> Inl e
         | Inr probabilityPath \<Rightarrow>
             if fst pth \<noteq> 0 then
               (case getFactory_make E m of
                  (splitNode, m0) \<Rightarrow>
               (let it = int (length (snd pth)) - 2
                in case vec_at (snd pth) it of
                     Inl e \<Rightarrow> Inl e
                   | Inr parent \<Rightarrow>
                  (let parentLength = node_end parent - node_start parent;
                       discountAfter = getDiscount (parameters E) (params m) (fst pth)
                                         (node_end parent - node_start parent)
                   in case vec_at (snd pth) (it + 1) of
                        Inl e \<Rightarrow> Inl e
                      | Inr lastNode \<Rightarrow>
                     (let discountFragmented =
                            getDiscount (parameters E) (params m) parentLength (fst pth)
                      in case vec_back discountPath of
                           Inl e \<Rightarrow> Inl e
                         | Inr discountBack \<Rightarrow>
                        (case updateAfterSplit (restaurant E) (store m0 (payload lastNode))
                                (outstanding m0 ! splitNode) discountBack
                                discountFragmented True (rng m0) of
                           (old', new', g') \<Rightarrow>
                             (let m1 = m0\<lparr>store := (store m0)(payload lastNode := old'),
                                          rng := g',
                                          outstanding := (outstanding m0)[splitNode := new']\<rparr>;
                                  concentrationFragmented =
                                    getConcentration (parameters E) (params m)
                                      discountFragmented parentLength (fst pth)
                              in case vec_at probabilityPath
                                        (int (length probabilityPath) - 2) of
                                   Inl e \<Rightarrow> Inl e
                                 | Inr parentProb \<Rightarrow>
                                     (let probability =
                                            computeProbability (restaurant E)
                                              (outstanding m1 ! splitNode) obs parentProb
                                              discountFragmented concentrationFragmented
                                      in Inr (probability,
                                              getFactory_recycle splitNode m1))))))))
             else (case vec_back probabilityPath of
                     Inl e \<Rightarrow> Inl e
                   | Inr p \<Rightarrow> Inr (p, m)))"

text \<open>
  \<^verbatim>\<open>HPYPModel::predictiveDistribution\<close>: the loop over the types \<open>i = 0, ..., numTypes-1\<close>
  is a recursion over the list of these types.
\<close>

fun predictiveDistribution_loop ::
  "('r, 'g, 'a, 't, 'p) Env \<Rightarrow> ('r, 'g, 't, 'p) HPYPModel \<Rightarrow> WrappedNodeList \<Rightarrow> d_vec \<Rightarrow> d_vec
    \<Rightarrow> e_type list \<Rightarrow> d_vec \<Rightarrow> error + d_vec" where
  "predictiveDistribution_loop E m pth discount_path concentration_path [] predictive =
     Inr predictive"
| "predictiveDistribution_loop E m pth discount_path concentration_path (i # is) predictive =
     (case computeProbabilityPath E m pth discount_path concentration_path i of
        Inl e \<Rightarrow> Inl e
      | Inr prob_path \<Rightarrow>
     (case vec_back prob_path of
        Inl e \<Rightarrow> Inl e
      | Inr p \<Rightarrow>
          predictiveDistribution_loop E m pth discount_path concentration_path is
            (predictive @ [p])))"

definition predictiveDistribution ::
  "('r, 'g, 'a, 't, 'p) Env \<Rightarrow> ('r, 'g, 't, 'p) HPYPModel \<Rightarrow> l_type \<Rightarrow> l_type
    \<Rightarrow> error + d_vec \<times> ('r, 'g, 't, 'p) HPYPModel" where
  "predictiveDistribution E m start stop =
     (let pth = findLongestSuffix (contextTree E) (tree m) (seq m) start stop;
          discount_path = getDiscounts (parameters E) (params m) pth;
          concentration_path = getConcentrations (parameters E) (params m) pth discount_path
      in case predictiveDistribution_loop E m pth discount_path concentration_path
                [0 ..  numTypes m - 1] [] of
           Inl e \<Rightarrow> Inl e
         | Inr predictive \<Rightarrow> Inr (predictive, m))"

text \<open>
  \<^verbatim>\<open>HPYPModel::predictiveDistributionWithMixing\<close>: the inner loop adds
  \<^verbatim>\<open>mixingWeights[j]*prob_path[j]\<close> to \<open>prob\<close> and \<^verbatim>\<open>mixingWeights[j]\<close> to \<open>sum\<close> for
  \<open>j\<close> below the smaller of the two sizes.
\<close>

fun mixing_loop :: "d_vec \<Rightarrow> d_vec \<Rightarrow> nat list \<Rightarrow> real \<times> real \<Rightarrow> real \<times> real" where
  "mixing_loop mixingWeights prob_path [] ps = ps"
| "mixing_loop mixingWeights prob_path (j # js) ps =
     mixing_loop mixingWeights prob_path js
       (fst ps + mixingWeights ! j * prob_path ! j, snd ps + mixingWeights ! j)"

fun predictiveDistributionWithMixing_loop ::
  "('r, 'g, 'a, 't, 'p) Env \<Rightarrow> ('r, 'g, 't, 'p) HPYPModel \<Rightarrow> WrappedNodeList \<Rightarrow> d_vec \<Rightarrow> d_vec
    \<Rightarrow> d_vec \<Rightarrow> e_type list \<Rightarrow> d_vec \<Rightarrow> error + d_vec" where
  "predictiveDistributionWithMixing_loop E m pth discount_path concentration_path
     mixingWeights [] predictive = Inr predictive"
| "predictiveDistributionWithMixing_loop E m pth discount_path concentration_path
     mixingWeights (i # is) predictive =
     (case computeProbabilityPath E m pth discount_path concentration_path i of
        Inl e \<Rightarrow> Inl e
      | Inr prob_path \<Rightarrow>
     (case vec_back prob_path of
        Inl e \<Rightarrow> Inl e
      | Inr p \<Rightarrow>
          (let ps = mixing_loop mixingWeights prob_path
                      [0 ..< min (length mixingWeights) (length prob_path)] (0, 0)
           in predictiveDistributionWithMixing_loop E m pth discount_path concentration_path
                mixingWeights is (predictive @ [fst ps + (1 - snd ps) * p]))))"

definition predictiveDistributionWithMixing ::
  "('r, 'g, 'a, 't, 'p) Env \<Rightarrow> ('r, 'g, 't, 'p) HPYPModel \<Rightarrow> l_type \<Rightarrow> l_type \<Rightarrow> d_vec
    \<Rightarrow> error + d_vec \<times> ('r, 'g, 't, 'p) HPYPModel" where
  "predictiveDistributionWithMixing E m start stop mixingWeights =
     (let pth = findLongestSuffix (contextTree E) (tree m) (seq m) start stop;
          discount_path = getDiscounts (parameters E) (params m) pth;
          concentration_path = getConcentrations (parameters E) (params m) pth discount_path
      in case predictiveDistributionWithMixing_loop E m pth discount_path concentration_path
                mixingWeights [0 ..  numTypes m - 1] [] of
           Inl e \<Rightarrow> Inl e
         | Inr predictive \<Rightarrow> Inr (predictive, m))"

section \<open>Joint log-probability\<close>

text \<open>
  The numeric utilities (\<^verbatim>\<open>utils.h\<close>, \<^verbatim>\<open>stirling.h\<close>, \<^verbatim>\<open>random.h\<close>). The additional data
  of a node is its Stirling-number generator, read by \<^verbatim>\<open>getLog\<close>. The vectors of
  log-weights of the direct sampler hold \<^verbatim>\<open>-INFINITY\<close>, so their entries are reals
  extended by minus infinity.
\<close>

datatype xreal = MInf | Fin real

record ('a, 'g) Utils =
  logKramp :: "real \<Rightarrow> real \<Rightarrow> int \<Rightarrow> real"
  getLog :: "'a \<Rightarrow> int \<Rightarrow> int \<Rightarrow> real"
  subMax_vec :: "xreal list \<Rightarrow> xreal list"
  add_vec :: "xreal list \<Rightarrow> xreal list \<Rightarrow> xreal list"
  exp_vec :: "xreal list \<Rightarrow> xreal list"
  sample_unnormalized_pdf :: "xreal list \<Rightarrow> int \<Rightarrow> 'g \<Rightarrow> int \<times> 'g"

text \<open>
  The three assertions that open \<open>addRemoveSamplePath\<close>, \<open>directGibbsSamplePath\<close> and
  \<open>computeLogRestaurantProb\<close>.
\<close>

definition path_asserts :: "WrappedNodeList \<Rightarrow> d_vec \<Rightarrow> d_vec \<Rightarrow> bool" where
  "path_asserts pth discountPath concentrationPath =
     (length pth > 0 \<and> length pth = length discountPath
      \<and> length pth = length concentrationPath)"

text \<open>
  \<^verbatim>\<open>HPYPModel::computeLogRestaurantProb\<close>. The loop over the types adds the Stirling term
  of each type and, when \<open>j = 0\<close>, its base term. After the assertions
  \<open>j = discountPath.size() - 1\<close> is an index of the path and of both vectors.
\<close>

fun computeLogRestaurantProb_loop ::
  "('r, 'g, 'a) Restaurant \<Rightarrow> ('a, 'g) Utils \<Rightarrow> 'r \<Rightarrow> 'a \<Rightarrow> int \<Rightarrow> real \<Rightarrow> e_type list
    \<Rightarrow> real \<Rightarrow> real" where
  "computeLogRestaurantProb_loop R U r stirlingGen j bp [] logProb = logProb"
| "computeLogRestaurantProb_loop R U r stirlingGen j bp (type # types) logProb =
     (let cw = getC R r type;
          tw = getT R r type;
          logProb1 = logProb + getLog U stirlingGen cw tw;
          logProb2 = (if j = 0 then logProb1 + real_of_int tw * ln bp else logProb1)
      in computeLogRestaurantProb_loop R U r stirlingGen j bp types logProb2)"

definition computeLogRestaurantProb ::
  "('r, 'g, 'a, 't, 'p) Env \<Rightarrow> ('a, 'g) Utils \<Rightarrow> ('r, 'g, 't, 'p) HPYPModel \<Rightarrow> WrappedNodeList
    \<Rightarrow> d_vec \<Rightarrow> d_vec \<Rightarrow> 'a list \<Rightarrow> real \<Rightarrow> error + real" where
  "computeLogRestaurantProb E U m pth discountPath concentrationPath payloadDataPath bp =
     (if \<not> path_asserts pth discountPath concentrationPath then Inl AssertionFailed
      else
        (let r = store m (payload (last pth));
             j = int (length discountPath) - 1;
             c = getC_total (restaurant E) r
         in if c = 1 then Inr 0
            else
              (let t = getT_total (restaurant E) r;
                   logProb0 = 0 + logKramp U (concentrationPath ! nat j + discountPath ! nat j)
                                    (discountPath ! nat j) (t - 1);
                   logProb1 = logProb0 - logKramp U (concentrationPath ! nat j + 1) 1 (c - 1)
               in case vec_at payloadDataPath j of
                    Inl e \<Rightarrow> Inl e
                  | Inr stirlingGen \<Rightarrow>
                      Inr (computeLogRestaurantProb_loop (restaurant E) U r stirlingGen j bp
                             (getTypeVector (restaurant E) r) logProb1))))"

text \<open>
  \<^verbatim>\<open>HPYPModel::makeAdditionalDataPtr\<close>; the shared pointer frees the data when the last
  copy goes.
\<close>

definition makeAdditionalDataPtr ::
  "('r, 'g, 'a, 't, 'p) Env \<Rightarrow> ('r, 'g, 't, 'p) HPYPModel \<Rightarrow> payload \<Rightarrow> real \<Rightarrow> real \<Rightarrow> 'a" where
  "makeAdditionalDataPtr E m pl discount concentration =
     createAdditionalData (restaurant E) (store m pl) discount concentration"

text \<open>
  The traversal state that \<open>runGibbsSampler\<close> and \<open>computeLogJoint\<close> carry from one path of
  the iterator to the next: the discount path, the concentration path, the additional
  data path and the length of the previous path.
\<close>

record 'a Traversal =
  tr_discountPath :: d_vec
  tr_concentrationPath :: d_vec
  tr_payloadDataPath :: "'a list"
  tr_pathLength :: int

text \<open>\<^verbatim>\<open>v.pop_back()\<close>: undefined on an empty vector.\<close>

definition pop_back :: "'b list \<Rightarrow> error + 'b list" where
  "pop_back v = (if v = [] then Inl EmptyContainer else Inr (butlast v))"

text \<open>
  The initialisation of the additional data path: one entry for each node of the first
  path, from \<open>discountPath[j]\<close> and \<open>concentrationPath[j]\<close>.
\<close>

fun init_payloadDataPath ::
  "('r, 'g, 'a, 't, 'p) Env \<Rightarrow> ('r, 'g, 't, 'p) HPYPModel \<Rightarrow> WrappedNodeList \<Rightarrow> d_vec \<Rightarrow> d_vec
    \<Rightarrow> int \<Rightarrow> 'a list \<Rightarrow> error + 'a list" where
  "init_payloadDataPath E m [] discountPath concentrationPath j payloadDataPath =
     Inr payloadDataPath"
| "init_payloadDataPath E m (it # rest) discountPath concentrationPath j payloadDataPath =
     (case vec_at discountPath j of Inl e \<Rightarrow> Inl e | Inr d \<Rightarrow>
      case vec_at concentrationPath j of Inl e \<Rightarrow> Inl e | Inr a \<Rightarrow>
        init_payloadDataPath E m rest discountPath concentrationPath (j + 1)
          (payloadDataPath @ [makeAdditionalDataPtr E m (payload it) d a]))"

definition init_traversal ::
  "('r, 'g, 'a, 't, 'p) Env \<Rightarrow> ('r, 'g, 't, 'p) HPYPModel \<Rightarrow> WrappedNodeList
    \<Rightarrow> error + 'a Traversal" where
  "init_traversal E m pth =
     (let discountPath = getDiscounts (parameters E) (params m) pth;
          concentrationPath = getConcentrations (parameters E) (params m) pth discountPath
      in case init_payloadDataPath E m pth discountPath concentrationPath 0 [] of
           Inl e \<Rightarrow> Inl e
         | Inr payloadDataPath \<Rightarrow>
             Inr \<lparr>tr_discountPath = discountPath, tr_concentrationPath = concentrationPath,
                  tr_payloadDataPath = payloadDataPath, tr_pathLength = int (length pth)\<rparr>)"

text \<open>
  The refill of the additional data path after an ascent and a descent: the iterator
  \<open>it\<close> (here the index \<open>i\<close> into the path) starts after the entries that are left, and
  one entry is pushed for each \<open>i\<close> below \<open>discountPath.size()\<close>.
\<close>

function refill_payloadDataPath ::
  "('r, 'g, 'a, 't, 'p) Env \<Rightarrow> ('r, 'g, 't, 'p) HPYPModel \<Rightarrow> WrappedNodeList \<Rightarrow> d_vec \<Rightarrow> d_vec
    \<Rightarrow> int \<Rightarrow> 'a list \<Rightarrow> error + 'a list" where
  "refill_payloadDataPath E m pth discountPath concentrationPath i payloadDataPath =
     (if i < int (length discountPath) then
        (case vec_at pth i of Inl e \<Rightarrow> Inl e | Inr it \<Rightarrow>
         case vec_at concentrationPath i of Inl e \<Rightarrow> Inl e | Inr a \<Rightarrow>
           refill_payloadDataPath E m pth discountPath concentrationPath (i + 1)
             (payloadDataPath
                @ [makeAdditionalDataPtr E m (payload it) (discountPath ! nat i) a]))
      else if i = int (length pth) then Inr payloadDataPath
      else Inl AssertionFailed)"
  by pat_completeness auto
termination
  by (relation "measure (\<lambda>(E, m, pth, discountPath, concentrationPath, i, payloadDataPath).
                  nat (int (length discountPath) - i))") auto

text \<open>
  The body of the \<^verbatim>\<open>while\<close> loop of \<open>runGibbsSampler\<close> and of \<open>computeLogJoint\<close> (the same
  text in both) between the test for an empty path and the update of \<open>pathLength\<close>: the
  new path is a sibling (same length), an ascent (one shorter) or an ascent followed by
  a descent.
\<close>

definition next_traversal ::
  "('r, 'g, 'a, 't, 'p) Env \<Rightarrow> ('r, 'g, 't, 'p) HPYPModel \<Rightarrow> WrappedNodeList \<Rightarrow> 'a Traversal
    \<Rightarrow> error + 'a Traversal" where
  "next_traversal E m pth tr =
     (case pop_back (tr_discountPath tr) of Inl e \<Rightarrow> Inl e | Inr d0 \<Rightarrow>
      case pop_back (tr_concentrationPath tr) of Inl e \<Rightarrow> Inl e | Inr a0 \<Rightarrow>
      case pop_back (tr_payloadDataPath tr) of Inl e \<Rightarrow> Inl e | Inr pd0 \<Rightarrow>
        if int (length pth) = tr_pathLength tr then
          (let discountPath = extendDiscounts (parameters E) (params m) pth d0;
               concentrationPath =
                 extendConcentrations (parameters E) (params m) pth discountPath a0
           in case vec_back pth of Inl e \<Rightarrow> Inl e | Inr pb \<Rightarrow>
              case vec_back discountPath of Inl e \<Rightarrow> Inl e | Inr db \<Rightarrow>
              case vec_back concentrationPath of Inl e \<Rightarrow> Inl e | Inr ab \<Rightarrow>
                Inr \<lparr>tr_discountPath = discountPath, tr_concentrationPath = concentrationPath,
                     tr_payloadDataPath = pd0 @ [makeAdditionalDataPtr E m (payload pb) db ab],
                     tr_pathLength = int (length pth)\<rparr>)
        else if int (length pth) = tr_pathLength tr - 1 then
          Inr \<lparr>tr_discountPath = d0, tr_concentrationPath = a0, tr_payloadDataPath = pd0,
               tr_pathLength = int (length pth)\<rparr>
        else
          (let discountPath = extendDiscounts (parameters E) (params m) pth d0;
               concentrationPath =
                 extendConcentrations (parameters E) (params m) pth discountPath a0
           in if int (length pth) < int (length pd0) then Inl OutOfRange
              else
                (case refill_payloadDataPath E m pth discountPath concentrationPath
                        (int (length pd0)) pd0 of
                   Inl e \<Rightarrow> Inl e
                 | Inr payloadDataPath \<Rightarrow>
                     Inr \<lparr>tr_discountPath = discountPath,
                          tr_concentrationPath = concentrationPath,
                          tr_payloadDataPath = payloadDataPath,
                          tr_pathLength = int (length pth)\<rparr>)))"

text \<open>
  \<^verbatim>\<open>HPYPModel::computeLogJoint\<close>. The loop runs over the paths that the iterator still
  holds and ends at the first empty one.
\<close>

fun computeLogJoint_loop ::
  "('r, 'g, 'a, 't, 'p) Env \<Rightarrow> ('a, 'g) Utils \<Rightarrow> ('r, 'g, 't, 'p) HPYPModel
    \<Rightarrow> WrappedNodeList list \<Rightarrow> 'a Traversal \<Rightarrow> real \<Rightarrow> error + real" where
  "computeLogJoint_loop E U m [] tr logJoint = Inr logJoint"
| "computeLogJoint_loop E U m (pth # rest) tr logJoint =
     (if length pth = 0 then Inr logJoint
      else
        (case next_traversal E m pth tr of
           Inl e \<Rightarrow> Inl e
         | Inr tr' \<Rightarrow>
        (case computeLogRestaurantProb E U m pth (tr_discountPath tr')
                (tr_concentrationPath tr') (tr_payloadDataPath tr') (baseProb m) of
           Inl e \<Rightarrow> Inl e
         | Inr lp \<Rightarrow> computeLogJoint_loop E U m rest tr' (logJoint + lp))))"

definition computeLogJoint ::
  "('r, 'g, 'a, 't, 'p) Env \<Rightarrow> ('a, 'g) Utils \<Rightarrow> ('r, 'g, 't, 'p) HPYPModel \<Rightarrow> error + real" where
  "computeLogJoint E U m =
     (case getDFSPathIterator (contextTree E) (tree m) of
        [] \<Rightarrow> Inl EmptyContainer
      | pth # rest \<Rightarrow>
     (case init_traversal E m pth of
        Inl e \<Rightarrow> Inl e
      | Inr tr \<Rightarrow>
     (case computeLogRestaurantProb E U m pth (tr_discountPath tr) (tr_concentrationPath tr)
             (tr_payloadDataPath tr) (baseProb m) of
        Inl e \<Rightarrow> Inl e
      | Inr lp \<Rightarrow> computeLogJoint_loop E U m rest tr (0 + lp))))"

section \<open>Gibbs samplers\<close>

text \<open>
  The four vectors \<^verbatim>\<open>logProbs1\<close>, ..., \<^verbatim>\<open>logProbs4\<close> of \<open>directGibbsSamplePath\<close>.
\<close>

type_synonym logProbs = "xreal list \<times> xreal list \<times> xreal list \<times> xreal list"

text \<open>
  The loop \<^verbatim>\<open>for (int tw = 1; tw <= currentCw; ++tw)\<close> of a node with a parent: the
  candidate \<open>tw\<close> writes the entry \<open>tw - 1\<close> of the vectors, the fourth one alone when the
  parent would be left with fewer customers than tables.
\<close>

fun fill_with_parent ::
  "('a, 'g) Utils \<Rightarrow> real \<Rightarrow> real \<Rightarrow> real \<Rightarrow> 'a \<Rightarrow> 'a \<Rightarrow> int \<Rightarrow> int \<Rightarrow> int \<Rightarrow> int \<Rightarrow> int
    \<Rightarrow> int \<Rightarrow> int list \<Rightarrow> logProbs \<Rightarrow> logProbs" where
  "fill_with_parent U concentration discount parentConcentration stirlingGenCurrent
     stirlingGenParent currentCw currentTw otherT parentCw parentTw parentOtherC [] ls = ls"
| "fill_with_parent U concentration discount parentConcentration stirlingGenCurrent
     stirlingGenParent currentCw currentTw otherT parentCw parentTw parentOtherC (tw # tws) ls =
     (case ls of
        (logProbs1, logProbs2, logProbs3, logProbs4) \<Rightarrow>
          (let newParentCw = parentCw - currentTw + tw
           in fill_with_parent U concentration discount parentConcentration stirlingGenCurrent
                stirlingGenParent currentCw currentTw otherT parentCw parentTw parentOtherC tws
                (if newParentCw < parentTw then
                   (logProbs1, logProbs2, logProbs3, logProbs4[nat (tw - 1) := MInf])
                 else
                   (logProbs1[nat (tw - 1) :=
                      Fin (logKramp U (concentration + discount) discount (otherT + tw - 1))],
                    logProbs2[nat (tw - 1) :=
                      Fin (- logKramp U (parentConcentration + 1) 1 (parentOtherC + tw - 1))],
                    logProbs3[nat (tw - 1) := Fin (getLog U stirlingGenCurrent currentCw tw)],
                    logProbs4[nat (tw - 1) :=
                      Fin (getLog U stirlingGenParent newParentCw parentTw)]))))"

text \<open>The same loop at the root, where the base probability stands for the parent.\<close>

fun fill_at_root ::
  "('a, 'g) Utils \<Rightarrow> real \<Rightarrow> real \<Rightarrow> 'a \<Rightarrow> int \<Rightarrow> int \<Rightarrow> real \<Rightarrow> int list \<Rightarrow> logProbs
    \<Rightarrow> logProbs" where
  "fill_at_root U concentration discount stirlingGenCurrent currentCw otherT bp [] ls = ls"
| "fill_at_root U concentration discount stirlingGenCurrent currentCw otherT bp (tw # tws) ls =
     (case ls of
        (logProbs1, logProbs2, logProbs3, logProbs4) \<Rightarrow>
          fill_at_root U concentration discount stirlingGenCurrent currentCw otherT bp tws
            (logProbs1[nat (tw - 1) :=
               Fin (logKramp U (concentration + discount) discount (otherT + tw - 1))],
             logProbs2[nat (tw - 1) := Fin (getLog U stirlingGenCurrent currentCw tw)],
             logProbs3[nat (tw - 1) := Fin (real_of_int tw * ln bp)],
             logProbs4))"

text \<open>
  From the four vectors to the weights handed to the sampler: \<^verbatim>\<open>subMax_vec\<close> on each of
  the four, four \<^verbatim>\<open>add_vec\<close> into \<open>logProbs\<close> (which starts as zeros), \<^verbatim>\<open>subMax_vec\<close> and
  \<^verbatim>\<open>exp_vec\<close> on the sum.
\<close>

definition combine_logProbs :: "('a, 'g) Utils \<Rightarrow> nat \<Rightarrow> logProbs \<Rightarrow> xreal list" where
  "combine_logProbs U n ls =
     (case ls of
        (logProbs1, logProbs2, logProbs3, logProbs4) \<Rightarrow>
          (let l1 = subMax_vec U logProbs1;
               l2 = subMax_vec U logProbs2;
               l3 = subMax_vec U logProbs3;
               l4 = subMax_vec U logProbs4;
               logProbs = add_vec U (add_vec U (add_vec U (add_vec U (replicate n (Fin 0)) l1) l2)
                            l3) l4
           in exp_vec U (subMax_vec U logProbs)))"

text \<open>
  The four vectors of the node \<open>j\<close> of the path for a type, in the store \<open>st\<close>. After the
  assertions of \<open>directGibbsSamplePath\<close> the index \<open>j\<close> (and \<open>j - 1\<close> when \<open>j > 0\<close>) lies in
  the path and in both parameter vectors; the additional data path is read unchecked.
\<close>

definition directGibbs_logProbs ::
  "('r, 'g, 'a) Restaurant \<Rightarrow> ('a, 'g) Utils \<Rightarrow> (payload \<Rightarrow> 'r) \<Rightarrow> WrappedNodeList \<Rightarrow> d_vec
    \<Rightarrow> d_vec \<Rightarrow> 'a list \<Rightarrow> real \<Rightarrow> e_type \<Rightarrow> int \<Rightarrow> error + logProbs" where
  "directGibbs_logProbs R U st pth discountPath concentrationPath payloadDataPath bp type j =
     (case vec_at payloadDataPath j of
        Inl e \<Rightarrow> Inl e
      | Inr stirlingGenCurrent \<Rightarrow>
          (let currentPayload = payload (pth ! nat j);
               currentCw = getC R (st currentPayload) type;
               currentTw = getT R (st currentPayload) type;
               otherT = getT_total R (st currentPayload) - currentTw;
               zeros = replicate (nat currentCw) (Fin 0)
           in if j > 0 then
                (case vec_at payloadDataPath (j - 1) of
                   Inl e \<Rightarrow> Inl e
                 | Inr stirlingGenParent \<Rightarrow>
                     (let parentPayload = payload (pth ! nat (j - 1));
                          parentTw = getT R (st parentPayload) type;
                          parentCw = getC R (st parentPayload) type;
                          parentOtherC = getC_total R (st parentPayload) - currentTw
                      in Inr (fill_with_parent U (concentrationPath ! nat j)
                                (discountPath ! nat j) (concentrationPath ! nat (j - 1))
                                stirlingGenCurrent stirlingGenParent currentCw currentTw otherT
                                parentCw parentTw parentOtherC [1 .. currentCw]
                                (zeros, zeros, zeros, zeros))))
              else
                Inr (fill_at_root U (concentrationPath ! nat j) (discountPath ! nat j)
                       stirlingGenCurrent currentCw otherT bp [1 .. currentCw]
                       (zeros, zeros, zeros, zeros))))"

text \<open>
  The writes that end one round of the \<^verbatim>\<open>while\<close> loop: \<^verbatim>\<open>setT\<close> on the current payload
  and, below the root, \<^verbatim>\<open>setC\<close> on the parent payload after the assertion
  \<^verbatim>\<open>newCw >= r.getT(parentPayload, type)\<close>.
\<close>

definition directGibbs_write ::
  "('r, 'g, 'a) Restaurant \<Rightarrow> (payload \<Rightarrow> 'r) \<Rightarrow> WrappedNodeList \<Rightarrow> e_type \<Rightarrow> int \<Rightarrow> int \<Rightarrow> int
    \<Rightarrow> error + (payload \<Rightarrow> 'r)" where
  "directGibbs_write R st pth type j currentTw sampledTw =
     (let currentPayload = payload (pth ! nat j);
          st1 = st(currentPayload := setT R (st currentPayload) type sampledTw)
      in if j > 0 then
           (let parentPayload = payload (pth ! nat (j - 1));
                newCw = getC R (st1 parentPayload) type - currentTw + sampledTw
            in if \<not> newCw \<ge> getT R (st1 parentPayload) type then Inl AssertionFailed
               else Inr (st1(parentPayload := setC R (st1 parentPayload) type newCw)))
         else Inr st1)"

text \<open>
  One round of the \<^verbatim>\<open>while (goUp && j != -1)\<close> loop of \<open>directGibbsSamplePath\<close>, with
  \<open>goUp\<close> and \<open>j\<close> as the round leaves them; the iterator \<open>current\<close> is the node \<open>j\<close> of
  the path. The first statement of the body is \<^verbatim>\<open>goUp = false\<close>; the branch taken when the
  sampled count differs decrements \<open>current\<close> and \<open>j\<close> and leaves \<open>goUp\<close> as it is, the other
  branch sets \<open>goUp\<close> to false.
\<close>

definition directGibbs_round ::
  "('r, 'g, 'a) Restaurant \<Rightarrow> ('a, 'g) Utils \<Rightarrow> WrappedNodeList \<Rightarrow> d_vec \<Rightarrow> d_vec \<Rightarrow> 'a list
    \<Rightarrow> real \<Rightarrow> e_type \<Rightarrow> int \<Rightarrow> (payload \<Rightarrow> 'r) \<times> 'g
    \<Rightarrow> error + bool \<times> int \<times> (payload \<Rightarrow> 'r) \<times> 'g" where
  "directGibbs_round R U pth discountPath concentrationPath payloadDataPath bp type j s =
     (let goUp = False
      in case directGibbs_logProbs R U (fst s) pth discountPath concentrationPath
                payloadDataPath bp type j of
           Inl e \<Rightarrow> Inl e
         | Inr ls \<Rightarrow>
             (let currentCw = getC R (fst s (payload (pth ! nat j))) type;
                  currentTw = getT R (fst s (payload (pth ! nat j))) type;
                  logProbs = combine_logProbs U (nat currentCw) ls
              in case sample_unnormalized_pdf U logProbs 0 (snd s) of
                   (i, g') \<Rightarrow>
                     (let sampledTw = i + 1
                      in case directGibbs_write R (fst s) pth type j currentTw sampledTw of
                           Inl e \<Rightarrow> Inl e
                         | Inr st' \<Rightarrow>
                             if sampledTw \<noteq> currentTw then Inr (goUp, j - 1, st', g')
                             else Inr (False, j, st', g'))))"

text \<open>
  The \<^verbatim>\<open>while (goUp && j != -1)\<close> loop itself. \<open>goUp\<close> is true when the loop is entered and
  no round hands it back true.
\<close>

function directGibbs_while ::
  "('r, 'g, 'a) Restaurant \<Rightarrow> ('a, 'g) Utils \<Rightarrow> WrappedNodeList \<Rightarrow> d_vec \<Rightarrow> d_vec \<Rightarrow> 'a list
    \<Rightarrow> real \<Rightarrow> e_type \<Rightarrow> bool \<Rightarrow> int \<Rightarrow> (payload \<Rightarrow> 'r) \<times> 'g
    \<Rightarrow> error + (payload \<Rightarrow> 'r) \<times> 'g" where
  "directGibbs_while R U pth discountPath concentrationPath payloadDataPath bp type goUp j s =
     (if goUp \<and> j \<noteq> - 1 then
        (case directGibbs_round R U pth discountPath concentrationPath payloadDataPath bp
                type j s of
           Inl e \<Rightarrow> Inl e
         | Inr (goUp', j', s') \<Rightarrow>
             directGibbs_while R U pth discountPath concentrationPath payloadDataPath bp type
               goUp' j' s')
      else Inr s)"
  by pat_completeness auto
termination
proof (relation "measure (\<lambda>(R, U, pth, discountPath, concentrationPath, payloadDataPath, bp,
                  type, goUp, j, s). if goUp then 1 else 0)", goal_cases)
  case 1
  show ?case by simp
next
  case (2 R U pth discountPath concentrationPath payloadDataPath bp type goUp j s r goUp' r'
          j' s')
  then have "fst r = False"
    by (auto simp: directGibbs_round_def Let_def split: sum.splits prod.splits if_splits)
  with 2 show ?case by auto
qed

declare directGibbs_while.simps [simp del]

text \<open>The loop over the types of the last node; a type with one customer is skipped.\<close>

fun directGibbs_types ::
  "('r, 'g, 'a) Restaurant \<Rightarrow> ('a, 'g) Utils \<Rightarrow> WrappedNodeList \<Rightarrow> d_vec \<Rightarrow> d_vec \<Rightarrow> 'a list
    \<Rightarrow> real \<Rightarrow> e_type list \<Rightarrow> (payload \<Rightarrow> 'r) \<times> 'g \<Rightarrow> error + (payload \<Rightarrow> 'r) \<times> 'g" where
  "directGibbs_types R U pth discountPath concentrationPath payloadDataPath bp [] s = Inr s"
| "directGibbs_types R U pth discountPath concentrationPath payloadDataPath bp (type # types) s =
     (let cw = getC R (fst s (payload (last pth))) type
      in if cw = 1 then
           directGibbs_types R U pth discountPath concentrationPath payloadDataPath bp types s
         else
           (case directGibbs_while R U pth discountPath concentrationPath payloadDataPath bp
                   type True (int (length discountPath) - 1) s of
              Inl e \<Rightarrow> Inl e
            | Inr s' \<Rightarrow>
                directGibbs_types R U pth discountPath concentrationPath payloadDataPath bp
                  types s'))"

definition directGibbsSamplePath ::
  "('r, 'g, 'a, 't, 'p) Env \<Rightarrow> ('a, 'g) Utils \<Rightarrow> ('r, 'g, 't, 'p) HPYPModel \<Rightarrow> WrappedNodeList
    \<Rightarrow> d_vec \<Rightarrow> d_vec \<Rightarrow> 'a list \<Rightarrow> real \<Rightarrow> error + ('r, 'g, 't, 'p) HPYPModel" where
  "directGibbsSamplePath E U m pth discountPath concentrationPath payloadDataPath bp =
     (if \<not> path_asserts pth discountPath concentrationPath then Inl AssertionFailed
      else
        (case directGibbs_types (restaurant E) U pth discountPath concentrationPath
                payloadDataPath bp
                (getTypeVector (restaurant E) (store m (payload (last pth))))
                (store m, rng m) of
           Inl e \<Rightarrow> Inl e
         | Inr (st', g') \<Rightarrow> Inr (m\<lparr>store := st', rng := g'\<rparr>)))"

text \<open>
  \<^verbatim>\<open>HPYPModel::addRemoveSamplePath\<close>. The first \<^verbatim>\<open>while\<close> loop removes a customer of the
  type at the node \<open>j\<close> and goes up while a table was closed; it leaves \<open>j\<close> at the node
  where it stopped, or at \<open>-1\<close> past the root. The additional data are handed over when
  \<^verbatim>\<open>payloadDataPath\<close> is as long as the path.

  Modelled from the spec: the last argument of \<^verbatim>\<open>removeCustomer\<close> and of \<^verbatim>\<open>addCustomer\<close>
  is left to its default here, which the specification gives as 1.
\<close>

function addRemove_remove ::
  "('r, 'g, 'a) Restaurant \<Rightarrow> WrappedNodeList \<Rightarrow> d_vec \<Rightarrow> 'a list \<Rightarrow> bool \<Rightarrow> e_type \<Rightarrow> int
    \<Rightarrow> (payload \<Rightarrow> 'r) \<times> 'g \<Rightarrow> error + int \<times> (payload \<Rightarrow> 'r) \<times> 'g" where
  "addRemove_remove R pth discountPath payloadDataPath useAdditionalData type j s =
     (if j = - 1 then Inr (j, s)
      else
        (case vec_at pth j of
           Inl e \<Rightarrow> Inl e
         | Inr current \<Rightarrow>
             (let additionalData =
                    (if useAdditionalData then Some (payloadDataPath ! nat j) else None)
              in case removeCustomer R (fst s (payload current)) type (discountPath ! nat j)
                        additionalData 1 (snd s) of
                   (removed, r', g') \<Rightarrow>
                     if removed \<noteq> 0 then
                       addRemove_remove R pth discountPath payloadDataPath useAdditionalData
                         type (j - 1) ((fst s)(payload current := r'), g')
                     else Inr (j, (fst s)(payload current := r'), g'))))"
  by pat_completeness auto
termination
proof (relation "measure (\<lambda>(R, pth, discountPath, payloadDataPath, useAdditionalData, type, j, s).
                  nat (j + 1))", goal_cases)
  case 1
  show ?case by simp
next
  case (2 R pth discountPath payloadDataPath useAdditionalData type j s current)
  then have "0 \<le> j" by (auto simp: vec_at_def split: if_splits)
  then show ?case by simp
qed

declare addRemove_remove.simps [simp del]

text \<open>
  The second \<^verbatim>\<open>while\<close> loop recomputes the probability path from the entry after \<open>j\<close>
  downwards; the entry 0 is the base probability and is never recomputed.
\<close>

function addRemove_recompute ::
  "('r, 'g, 'a) Restaurant \<Rightarrow> (payload \<Rightarrow> 'r) \<Rightarrow> WrappedNodeList \<Rightarrow> d_vec \<Rightarrow> d_vec \<Rightarrow> e_type
    \<Rightarrow> int \<Rightarrow> d_vec \<Rightarrow> error + d_vec" where
  "addRemove_recompute R st pth discountPath concentrationPath type j probabilityPath =
     (if j < int (length probabilityPath) - 1 then
        (let j0 = (if j = - 1 then 0 else j)
         in case vec_at pth j0 of
              Inl e \<Rightarrow> Inl e
            | Inr current \<Rightarrow>
                addRemove_recompute R st pth discountPath concentrationPath type (j0 + 1)
                  (probabilityPath[nat (j0 + 1) :=
                     computeProbability R (st (payload current)) type (probabilityPath ! nat j0)
                       (discountPath ! nat j0) (concentrationPath ! nat j0)]))
      else Inr probabilityPath)"
  by pat_completeness auto
termination
  by (relation "measure (\<lambda>(R, st, pth, discountPath, concentrationPath, type, j,
                  probabilityPath). nat (int (length probabilityPath) - 1 - j))") auto

declare addRemove_recompute.simps [simp del]

text \<open>
  The third \<^verbatim>\<open>while\<close> loop seats a customer at the node \<open>j\<close> and goes up while a table was
  opened.
\<close>

function addRemove_add ::
  "('r, 'g, 'a) Restaurant \<Rightarrow> WrappedNodeList \<Rightarrow> d_vec \<Rightarrow> d_vec \<Rightarrow> 'a list \<Rightarrow> bool \<Rightarrow> e_type
    \<Rightarrow> d_vec \<Rightarrow> int \<Rightarrow> (payload \<Rightarrow> 'r) \<times> 'g \<Rightarrow> error + (payload \<Rightarrow> 'r) \<times> 'g" where
  "addRemove_add R pth discountPath concentrationPath payloadDataPath useAdditionalData type
     probabilityPath j s =
     (if j = - 1 then Inr s
      else
        (case vec_at pth j of
           Inl e \<Rightarrow> Inl e
         | Inr current \<Rightarrow>
             (let additionalData =
                    (if useAdditionalData then Some (payloadDataPath ! nat j) else None)
              in case addCustomer R (fst s (payload current)) type (probabilityPath ! nat j)
                        (discountPath ! nat j) (concentrationPath ! nat j) additionalData 1
                        (snd s) of
                   (inserted, r', g') \<Rightarrow>
                     if inserted \<noteq> 0 then
                       addRemove_add R pth discountPath concentrationPath payloadDataPath
                         useAdditionalData type probabilityPath (j - 1)
                         ((fst s)(payload current := r'), g')
                     else Inr ((fst s)(payload current := r'), g'))))"
  by pat_completeness auto
termination
proof (relation "measure (\<lambda>(R, pth, discountPath, concentrationPath, payloadDataPath,
                  useAdditionalData, type, probabilityPath, j, s). nat (j + 1))", goal_cases)
  case 1
  show ?case by simp
next
  case (2 R pth discountPath concentrationPath payloadDataPath useAdditionalData type
          probabilityPath j s current)
  then have "0 \<le> j" by (auto simp: vec_at_def split: if_splits)
  then show ?case by simp
qed

declare addRemove_add.simps [simp del]

text \<open>
  The loop \<^verbatim>\<open>for (l_type i = 0; i < cw; ++i)\<close> over the customers of a type; the first
  argument counts the rounds that are left.
\<close>

fun addRemove_customers ::
  "nat \<Rightarrow> ('r, 'g, 'a) Restaurant \<Rightarrow> WrappedNodeList \<Rightarrow> d_vec \<Rightarrow> d_vec \<Rightarrow> 'a list \<Rightarrow> bool
    \<Rightarrow> e_type \<Rightarrow> d_vec \<times> (payload \<Rightarrow> 'r) \<times> 'g \<Rightarrow> error + d_vec \<times> (payload \<Rightarrow> 'r) \<times> 'g" where
  "addRemove_customers 0 R pth discountPath concentrationPath payloadDataPath
     useAdditionalData type ps = Inr ps"
| "addRemove_customers (Suc n) R pth discountPath concentrationPath payloadDataPath
     useAdditionalData type ps =
     (case addRemove_remove R pth discountPath payloadDataPath useAdditionalData type
             (int (length discountPath) - 1) (snd ps) of
        Inl e \<Rightarrow> Inl e
      | Inr (j, s1) \<Rightarrow>
     (case addRemove_recompute R (fst s1) pth discountPath concentrationPath type j (fst ps) of
        Inl e \<Rightarrow> Inl e
      | Inr probabilityPath \<Rightarrow>
     (case addRemove_add R pth discountPath concentrationPath payloadDataPath
             useAdditionalData type probabilityPath (int (length discountPath) - 1) s1 of
        Inl e \<Rightarrow> Inl e
      | Inr s2 \<Rightarrow>
          addRemove_customers n R pth discountPath concentrationPath payloadDataPath
            useAdditionalData type (probabilityPath, s2))))"

text \<open>
  The loop over the types of the last node. \<open>computeProbabilityPath\<close> is a method of the
  model and reads the store as the types before have left it.
\<close>

fun addRemove_types ::
  "('r, 'g, 'a, 't, 'p) Env \<Rightarrow> ('r, 'g, 't, 'p) HPYPModel \<Rightarrow> WrappedNodeList \<Rightarrow> d_vec \<Rightarrow> d_vec
    \<Rightarrow> 'a list \<Rightarrow> bool \<Rightarrow> e_type list \<Rightarrow> (payload \<Rightarrow> 'r) \<times> 'g
    \<Rightarrow> error + (payload \<Rightarrow> 'r) \<times> 'g" where
  "addRemove_types E m pth discountPath concentrationPath payloadDataPath useAdditionalData
     [] s = Inr s"
| "addRemove_types E m pth discountPath concentrationPath payloadDataPath useAdditionalData
     (type # types) s =
     (let cw = getC (restaurant E) (fst s (payload (last pth))) type
      in if cw = 1 then
           addRemove_types E m pth discountPath concentrationPath payloadDataPath
             useAdditionalData types s
         else
           (case computeProbabilityPath E (m\<lparr>store := fst s, rng := snd s\<rparr>) pth discountPath
                   concentrationPath type of
              Inl e \<Rightarrow> Inl e
            | Inr probabilityPath \<Rightarrow>
           (case addRemove_customers (nat cw) (restaurant E) pth discountPath
                   concentrationPath payloadDataPath useAdditionalData type
                   (probabilityPath, s) of
              Inl e \<Rightarrow> Inl e
            | Inr (probabilityPath', s') \<Rightarrow>
                addRemove_types E m pth discountPath concentrationPath payloadDataPath
                  useAdditionalData types s')))"

definition addRemoveSamplePath ::
  "('r, 'g, 'a, 't, 'p) Env \<Rightarrow> ('r, 'g, 't, 'p) HPYPModel \<Rightarrow> WrappedNodeList \<Rightarrow> d_vec \<Rightarrow> d_vec
    \<Rightarrow> 'a list \<Rightarrow> real \<Rightarrow> error + ('r, 'g, 't, 'p) HPYPModel" where
  "addRemoveSamplePath E m pth discountPath concentrationPath payloadDataPath bp =
     (if \<not> path_asserts pth discountPath concentrationPath then Inl AssertionFailed
      else
        (case addRemove_types E m pth discountPath concentrationPath payloadDataPath
                (length payloadDataPath = length pth)
                (getTypeVector (restaurant E) (store m (payload (last pth))))
                (store m, rng m) of
           Inl e \<Rightarrow> Inl e
         | Inr (st', g') \<Rightarrow> Inr (m\<lparr>store := st', rng := g'\<rparr>)))"

text \<open>
  \<^verbatim>\<open>HPYPModel::runGibbsSampler\<close>. The sampler of the chosen mode is called on every path
  of the iterator, with the member \<open>baseProb\<close>; the vectors are carried from one path to
  the next as in \<open>computeLogJoint\<close>.
\<close>

definition samplePath ::
  "('r, 'g, 'a, 't, 'p) Env \<Rightarrow> ('a, 'g) Utils \<Rightarrow> bool \<Rightarrow> ('r, 'g, 't, 'p) HPYPModel
    \<Rightarrow> WrappedNodeList \<Rightarrow> 'a Traversal \<Rightarrow> error + ('r, 'g, 't, 'p) HPYPModel" where
  "samplePath E U directGibbs m pth tr =
     (if directGibbs then
        directGibbsSamplePath E U m pth (tr_discountPath tr) (tr_concentrationPath tr)
          (tr_payloadDataPath tr) (baseProb m)
      else
        addRemoveSamplePath E m pth (tr_discountPath tr) (tr_concentrationPath tr)
          (tr_payloadDataPath tr) (baseProb m))"

fun runGibbsSampler_loop ::
  "('r, 'g, 'a, 't, 'p) Env \<Rightarrow> ('a, 'g) Utils \<Rightarrow> bool \<Rightarrow> WrappedNodeList list \<Rightarrow> 'a Traversal
    \<Rightarrow> ('r, 'g, 't, 'p) HPYPModel \<Rightarrow> error + ('r, 'g, 't, 'p) HPYPModel" where
  "runGibbsSampler_loop E U directGibbs [] tr m = Inr m"
| "runGibbsSampler_loop E U directGibbs (pth # rest) tr m =
     (if length pth = 0 then Inr m
      else
        (case next_traversal E m pth tr of
           Inl e \<Rightarrow> Inl e
         | Inr tr' \<Rightarrow>
        (case samplePath E U directGibbs m pth tr' of
           Inl e \<Rightarrow> Inl e
         | Inr m' \<Rightarrow> runGibbsSampler_loop E U directGibbs rest tr' m')))"

definition runGibbsSampler ::
  "('r, 'g, 'a, 't, 'p) Env \<Rightarrow> ('a, 'g) Utils \<Rightarrow> ('r, 'g, 't, 'p) HPYPModel \<Rightarrow> bool
    \<Rightarrow> error + ('r, 'g, 't, 'p) HPYPModel" where
  "runGibbsSampler E U m directGibbs =
     (case getDFSPathIterator (contextTree E) (tree m) of
        [] \<Rightarrow> Inl EmptyContainer
      | pth # rest \<Rightarrow>
     (case init_traversal E m pth of
        Inl e \<Rightarrow> Inl e
      | Inr tr \<Rightarrow>
     (case samplePath E U directGibbs m pth tr of
        Inl e \<Rightarrow> Inl e
      | Inr m' \<Rightarrow> runGibbsSampler_loop E U directGibbs rest tr m')))"

section \<open>Reference collaborators\<close>

text \<open>
  Concrete collaborators on which the theorems below are instantiated. The restaurant
  keeps, for every type, the pair of its customer count and its table count.
\<close>

type_synonym crp = "e_type \<Rightarrow> int \<times> int"

definition crp_types :: "int \<Rightarrow> e_type list" where
  "crp_types n = [0 .. n - 1]"

definition crp_c :: "int \<Rightarrow> crp \<Rightarrow> int" where
  "crp_c n r = sum_list (map (\<lambda>y. fst (r y)) (crp_types n))"

definition crp_t :: "int \<Rightarrow> crp \<Rightarrow> int" where
  "crp_t n r = sum_list (map (\<lambda>y. snd (r y)) (crp_types n))"

text \<open>
  Modelled from the spec: the restaurants of the repository (its header
  \<^verbatim>\<open>hpyp_restaurants.h\<close> and their implementation) are not among the sources. This is a
  restaurant over \<open>n\<close> types as section 4.2 of the specification describes one:
  \<open>computeProbability\<close> is the stated formula, with the empty restaurant returning the
  parent probability; \<open>addCustomer\<close> seats one customer and either opens a table
  (returning 1, so that the caller goes on to the parent) or joins a table (returning 0);
  \<open>removeCustomer\<close> is its inverse and returns 1 when a table was closed. A seating
  decision that the counts do not force is a draw \<open>draw g\<close> from the random source
  (\<open>True\<close>: the table is opened, respectively closed). \<open>setT\<close> and \<open>setC\<close> overwrite one
  count; in only-new mode \<open>updateAfterSplit\<close> gives the new payload one customer for each
  table of the old one, at one table per type, and leaves the old payload as it is.
\<close>

definition crp_restaurant :: "('g \<Rightarrow> bool \<times> 'g) \<Rightarrow> int \<Rightarrow> (crp, 'g, unit) Restaurant" where
  "crp_restaurant draw n =
     \<lparr>computeProbability = (\<lambda>r y parentProb d a.
        if crp_c n r = 0 then parentProb
        else ((real_of_int (fst (r y)) - d * real_of_int (snd (r y)))
               + (a + d * real_of_int (crp_t n r)) * parentProb)
             / (a + real_of_int (crp_c n r))),
      addCustomer = (\<lambda>r y parentProb d a extra w g.
        if fst (r y) = 0 then (1, r(y := (1, snd (r y) + 1)), g)
        else (case draw g of
                (b, g') \<Rightarrow>
                  if b then (1, r(y := (fst (r y) + 1, snd (r y) + 1)), g')
                  else (0, r(y := (fst (r y) + 1, snd (r y))), g'))),
      removeCustomer = (\<lambda>r y d extra w g.
        if fst (r y) \<le> 0 then (0, r, g)
        else if fst (r y) = snd (r y) then (1, r(y := (fst (r y) - 1, snd (r y) - 1)), g)
        else if snd (r y) \<le> 1 then (0, r(y := (fst (r y) - 1, snd (r y))), g)
        else (case draw g of
                (b, g') \<Rightarrow>
                  if b then (1, r(y := (fst (r y) - 1, snd (r y) - 1)), g')
                  else (0, r(y := (fst (r y) - 1, snd (r y))), g'))),
      updateAfterSplit = (\<lambda>old new dBefore dAfter onlyNew g.
        (old, (\<lambda>y. (snd (old y), min 1 (snd (old y)))), g)),
      getTypeVector = (\<lambda>r. filter (\<lambda>y. 0 < fst (r y)) (crp_types n)),
      getC = (\<lambda>r y. fst (r y)),
      getC_total = crp_c n,
      getT = (\<lambda>r y. snd (r y)),
      getT_total = crp_t n,
      setT = (\<lambda>r y t. r(y := (fst (r y), t))),
      setC = (\<lambda>r y c. r(y := (c, snd (r y)))),
      createAdditionalData = (\<lambda>r d a. ()),
      restaurant_checkConsistency = (\<lambda>r. list_all (\<lambda>y. snd (r y) \<le> fst (r y)
                                        \<and> (1 \<le> snd (r y)) = (1 \<le> fst (r y))) (crp_types n)),
      factory_make = (\<lambda>y. (0, 0))\<rparr>"

text \<open>
  The random source as the list of the draws to come. A restaurant reads a draw as a
  coin (\<open>True\<close> unless the draw is \<open>0\<close>); an exhausted source answers \<open>False\<close>.
\<close>

definition coin :: "nat list \<Rightarrow> bool \<times> nat list" where
  "coin g = (case g of [] \<Rightarrow> (False, []) | b # g' \<Rightarrow> (b \<noteq> 0, g'))"

text \<open>The source that always answers \<open>False\<close>: a customer joins a table whenever it can.\<close>

definition never :: "unit \<Rightarrow> bool \<times> unit" where
  "never g = (False, g)"

text \<open>
  The context tree of a constant sequence is a chain: the context of length \<open>k\<close> is a
  suffix of every longer one. Its state is the path from the root to the deepest node;
  a lookup for \<^verbatim>\<open>seq[start..stop)\<close> returns the nodes of length at most \<open>stop - start\<close>,
  every context lies on a node, and an insertion appends the node of the next length
  when it is missing, without a split.
\<close>

definition chain_node :: "nat \<Rightarrow> WrappedNode" where
  "chain_node k = \<lparr>node_start = 0, node_end = int k, depth = int k, payload = k\<rparr>"

definition chain :: "nat \<Rightarrow> WrappedNodeList" where
  "chain k = map chain_node [0 ..< Suc k]"

definition chain_tree :: "(WrappedNodeList, crp) ContextTree" where
  "chain_tree =
     \<lparr>findLongestSuffix = (\<lambda>t sq start stop. take (nat (stop - start) + 1) t),
      findLongestSuffixVirtual = (\<lambda>t sq start stop. (0, take (nat (stop - start) + 1) t)),
      findNode = (\<lambda>t sq start stop. take (nat (stop - start) + 1) t),
      tree_insert = (\<lambda>t sq st start stop.
        (if length t \<le> nat (stop - start)
         then (\<lparr>ir_action = INSERT_ACTION_NO_SPLIT, ir_path = t @ [chain_node (length t)],
                ir_splitChild = chain_node 0\<rparr>, t @ [chain_node (length t)], st)
         else (\<lparr>ir_action = INSERT_ACTION_NO_SPLIT,
                ir_path = take (nat (stop - start) + 1) t,
                ir_splitChild = chain_node 0\<rparr>, t, st))),
      getDFSPathIterator = (\<lambda>t. map (\<lambda>k. take (Suc k) t) [0 ..< length t])\<rparr>"

text \<open>Constant parameters: discount \<open>1/2\<close> and concentration \<open>1\<close> at every node.\<close>

definition const_parameters :: "(unit, crp) Parameters" where
  "const_parameters =
     \<lparr>getDiscounts = (\<lambda>p pth. map (\<lambda>x. 1 / 2) pth),
      getConcentrations = (\<lambda>p pth d. map (\<lambda>x. 1) pth),
      getDiscount = (\<lambda>p parentLen childLen. 1 / 2),
      getConcentration = (\<lambda>p d parentLen childLen. 1),
      extendDiscounts = (\<lambda>p pth d. d @ replicate (length pth - length d) (1 / 2)),
      extendConcentrations = (\<lambda>p pth d a. a @ replicate (length pth - length a) 1),
      accumulateParameterGradient = (\<lambda>p st pth pp d a obs. p),
      stepParameterGradient = (\<lambda>p rate. p)\<rparr>"

definition ref_env :: "('g \<Rightarrow> bool \<times> 'g) \<Rightarrow> (crp, 'g, unit, WrappedNodeList, unit) Env" where
  "ref_env draw =
     \<lparr>restaurant = crp_restaurant draw 2, contextTree = chain_tree,
      parameters = const_parameters\<rparr>"

text \<open>
  A model over two types on the sequence \<open>0 0 0\<close>: the root holds two customers of type 0
  at one table, its child one customer at one table.
\<close>

definition ref_store :: "payload \<Rightarrow> crp" where
  "ref_store = (\<lambda>a y. (0, 0))(0 := (\<lambda>y. (0, 0))(0 := (2, 1)), 1 := (\<lambda>y. (0, 0))(0 := (1, 1)))"

definition ref_model :: "'g \<Rightarrow> (crp, 'g, WrappedNodeList, unit) HPYPModel" where
  "ref_model g = new_HPYPModel [0, 0, 0] (chain 1) () 2 ref_store g"

text \<open>
  The context tree of the sequence \<open>0 1 1\<close> once the contexts \<open>0\<close> and \<open>0 1\<close> are
  inserted: the root, the node \<open>0\<close> and the node \<open>0 1\<close>, both children of the root. The
  context \<open>1\<close> is a suffix of \<open>0 1\<close> only, so it falls inside the edge from the root to
  the node \<open>0 1\<close>: its longest suffix in the tree is the root, and the virtual lookup
  reports a fragment of length 1 on the path to the node \<open>0 1\<close>.
\<close>

definition zo_root :: WrappedNode where
  "zo_root = \<lparr>node_start = 0, node_end = 0, depth = 0, payload = 0\<rparr>"

definition zo_A :: WrappedNode where
  "zo_A = \<lparr>node_start = 0, node_end = 1, depth = 1, payload = 1\<rparr>"

definition zo_B :: WrappedNode where
  "zo_B = \<lparr>node_start = 0, node_end = 2, depth = 1, payload = 2\<rparr>"

definition zo_context :: "e_type list \<Rightarrow> l_type \<Rightarrow> l_type \<Rightarrow> e_type list" where
  "zo_context sq start stop = take (nat (stop - start)) (drop (nat start) sq)"

definition zo_tree :: "(unit, crp) ContextTree" where
  "zo_tree =
     \<lparr>findLongestSuffix = (\<lambda>t sq start stop.
        if zo_context sq start stop = [0] then [zo_root, zo_A]
        else if zo_context sq start stop = [0, 1] then [zo_root, zo_B]
        else [zo_root]),
      findLongestSuffixVirtual = (\<lambda>t sq start stop.
        if zo_context sq start stop = [0] then (0, [zo_root, zo_A])
        else if zo_context sq start stop = [0, 1] then (0, [zo_root, zo_B])
        else if zo_context sq start stop = [1] then (1, [zo_root, zo_B])
        else (0, [zo_root])),
      findNode = (\<lambda>t sq start stop.
        if zo_context sq start stop = [0] then [zo_root, zo_A]
        else if zo_context sq start stop = [0, 1] then [zo_root, zo_B]
        else [zo_root]),
      tree_insert = (\<lambda>t sq st start stop.
        (\<lparr>ir_action = INSERT_ACTION_NO_SPLIT,
          ir_path = (if zo_context sq start stop = [0] then [zo_root, zo_A]
                     else if zo_context sq start stop = [0, 1] then [zo_root, zo_B]
                     else [zo_root]),
          ir_splitChild = zo_root\<rparr>, t, st)),
      getDFSPathIterator = (\<lambda>t. [[zo_root], [zo_root, zo_A], [zo_root, zo_B]])\<rparr>"

definition zo_env :: "('g \<Rightarrow> bool \<times> 'g) \<Rightarrow> (crp, 'g, unit, unit, unit) Env" where
  "zo_env draw =
     \<lparr>restaurant = crp_restaurant draw 2, contextTree = zo_tree,
      parameters = const_parameters\<rparr>"

text \<open>
  The counts after the three symbols are seated with a table of their own each: the root
  holds one customer of type 0 and two of type 1, the nodes \<open>0\<close> and \<open>0 1\<close> one customer
  of type 1 each.
\<close>

definition zo_store :: "payload \<Rightarrow> crp" where
  "zo_store = (\<lambda>a y. (0, 0))
     (0 := (\<lambda>y. (0, 0))(0 := (1, 1), 1 := (2, 2)),
      1 := (\<lambda>y. (0, 0))(1 := (1, 1)),
      2 := (\<lambda>y. (0, 0))(1 := (1, 1)))"

definition zo_model :: "'g \<Rightarrow> (crp, 'g, unit, unit) HPYPModel" where
  "zo_model g = new_HPYPModel [0, 1, 1] () () 2 zo_store g"

section \<open>The walks as the specification words them\<close>

text \<open>
  The upward walk of \<open>updatePath\<close> in the words of the specification: the nodes are visited
  from the deepest to the root; the node of index \<open>j\<close> is handed the entry \<open>j\<close> of the
  probability path as its parent probability and the fraction returned one level below
  as the weight of its customer; the walk ends when a fraction is \<open>0\<close>. The argument
  \<open>Suc j\<close> counts the nodes still to visit.
\<close>

fun updatePath_walk ::
  "('r, 'g, 'a) Restaurant \<Rightarrow> WrappedNodeList \<Rightarrow> d_vec \<Rightarrow> d_vec \<Rightarrow> d_vec \<Rightarrow> e_type
    \<Rightarrow> nat \<Rightarrow> real \<Rightarrow> (payload \<Rightarrow> 'r) \<times> 'g \<Rightarrow> (payload \<Rightarrow> 'r) \<times> 'g" where
  "updatePath_walk R pth p d \<alpha> obs 0 weight s = s"
| "updatePath_walk R pth p d \<alpha> obs (Suc j) weight s =
     (case addCustomer R (fst s (payload (pth ! j))) obs (p ! j) (d ! j) (\<alpha> ! j) None weight
             (snd s) of
        (fraction, r', g') \<Rightarrow>
          if fraction = 0 then ((fst s)(payload (pth ! j) := r'), g')
          else updatePath_walk R pth p d \<alpha> obs j fraction
                 ((fst s)(payload (pth ! j) := r'), g'))"

text \<open>
  Modelled from the spec: the lookups of the context tree are not among the sources.
  By section 4.1 of the specification, \<open>findLongestSuffixVirtual\<close> returns what
  \<open>findLongestSuffix\<close> returns unless the match falls inside an edge, and a fragment length
  of \<open>0\<close> means an exact node match. A context that lies on an exact node is therefore
  one for which the virtual lookup answers \<open>0\<close> and the path of the plain lookup.
\<close>

definition on_exact_node ::
  "('r, 'g, 'a, 't, 'p) Env \<Rightarrow> ('r, 'g, 't, 'p) HPYPModel \<Rightarrow> l_type \<Rightarrow> l_type \<Rightarrow> bool" where
  "on_exact_node E m start stop =
     (findLongestSuffixVirtual (contextTree E) (tree m) (seq m) start stop =
        (0, findLongestSuffix (contextTree E) (tree m) (seq m) start stop))"

text \<open>
  Modelled from the spec: \<open>updateAfterSplit\<close> is not among the sources. In only-new mode
  (\<^verbatim>\<open>onlyNew = true\<close>, "update splitNode only" at the call in
  \<^verbatim>\<open>predictWithFragmentation\<close>) it writes the new payload and leaves the old one as it is.
\<close>

definition onlyNew_contract :: "('r, 'g, 'a) Restaurant \<Rightarrow> bool" where
  "onlyNew_contract R =
     (\<forall>old new dBefore dAfter g. fst (updateAfterSplit R old new dBefore dAfter True g) = old)"

text \<open>
  The model that \<open>computeLosses\<close> has reached after \<open>k\<close> rounds of its loop, started in
  the model \<open>m\<close> at the position \<open>i\<close>.
\<close>

fun losses_model ::
  "('r, 'g, 'a, 't, 'p) Env \<Rightarrow> l_type \<Rightarrow> l_type \<Rightarrow> ('r, 'g, 't, 'p) HPYPModel \<Rightarrow> nat
    \<Rightarrow> error + ('r, 'g, 't, 'p) HPYPModel" where
  "losses_model E start i m 0 = Inr m"
| "losses_model E start i m (Suc k) =
     (case vec_at (seq m) i of
        Inl e \<Rightarrow> Inl e
      | Inr obs \<Rightarrow>
     (case insertContextAndObservation E m start i obs of
        Inl e \<Rightarrow> Inl e
      | Inr (prob_path, m') \<Rightarrow> losses_model E start (i + 1) m' k))"

text \<open>
  An empty model over two types on the sequence \<open>0 0 0\<close>: the tree is the root alone and
  every restaurant is empty.
\<close>

definition fresh_model :: "(crp, unit, WrappedNodeList, unit) HPYPModel" where
  "fresh_model = new_HPYPModel [0, 0, 0] (chain 0) () 2 (\<lambda>a y. (0, 0)) ()"

text \<open>
  Modelled from the spec: the numeric utilities of the repository (\<^verbatim>\<open>utils.h\<close>,
  \<^verbatim>\<open>stirling.h\<close>, \<^verbatim>\<open>random.h\<close>) are not among the sources. By the glossary of the
  specification \<open>logKramp a s n\<close> is the logarithm of the product of \<open>a + k s\<close> for
  \<open>k = 0, ..., n-1\<close>, and the Stirling table holds the logarithms of the Stirling numbers
  of the second kind. \<open>subMax_vec\<close> subtracts the largest entry from every entry,
  \<open>add_vec\<close> adds two vectors entry by entry, \<open>exp_vec\<close> exponentiates every entry, and
  \<open>sample_unnormalized_pdf\<close> returns an index of positive weight: the index that the
  random source draws when that index has positive weight, the first index of positive
  weight otherwise (the index 0 when no weight is positive).
\<close>

fun stirling2 :: "nat \<Rightarrow> nat \<Rightarrow> nat" where
  "stirling2 0 0 = 1"
| "stirling2 0 (Suc k) = 0"
| "stirling2 (Suc n) 0 = 0"
| "stirling2 (Suc n) (Suc k) = Suc k * stirling2 n (Suc k) + stirling2 n k"

fun xadd :: "xreal \<Rightarrow> xreal \<Rightarrow> xreal" where
  "xadd (Fin a) (Fin b) = Fin (a + b)"
| "xadd x y = MInf"

fun xsub :: "xreal \<Rightarrow> xreal \<Rightarrow> xreal" where
  "xsub (Fin a) (Fin b) = Fin (a - b)"
| "xsub (Fin a) MInf = Fin a"
| "xsub MInf y = MInf"

fun xmax :: "xreal \<Rightarrow> xreal \<Rightarrow> xreal" where
  "xmax (Fin a) (Fin b) = Fin (max a b)"
| "xmax (Fin a) MInf = Fin a"
| "xmax MInf y = y"

fun xexp :: "xreal \<Rightarrow> xreal" where
  "xexp (Fin a) = Fin (exp a)"
| "xexp MInf = Fin 0"

definition first_positive :: "xreal list \<Rightarrow> int" where
  "first_positive pdf =
     (if list_all (\<lambda>x. x = Fin 0 \<or> x = MInf) pdf then 0
      else int (length (takeWhile (\<lambda>x. x = Fin 0 \<or> x = MInf) pdf)))"

definition ref_utils :: "(unit, nat list) Utils" where
  "ref_utils =
     \<lparr>logKramp = (\<lambda>a s n. ln (prod_list (map (\<lambda>k. a + real k * s) [0 ..< nat n]))),
      getLog = (\<lambda>gen c t. ln (real (stirling2 (nat c) (nat t)))),
      subMax_vec = (\<lambda>v. map (\<lambda>x. xsub x (foldr xmax v MInf)) v),
      add_vec = (\<lambda>v w. map (\<lambda>(x, y). xadd x y) (zip v w)),
      exp_vec = map xexp,
      sample_unnormalized_pdf = (\<lambda>pdf end_pos g.
        case g of
          [] \<Rightarrow> (first_positive pdf, [])
        | i # g' \<Rightarrow>
            (if i < length pdf \<and> pdf ! i \<noteq> Fin 0 \<and> pdf ! i \<noteq> MInf then int i
             else first_positive pdf, g'))\<rparr>"

text \<open>
  The visits of the traversal that \<open>runGibbsSampler\<close> and \<open>computeLogJoint\<close> make after the
  first path: each non-empty path the iterator yields, up to the first empty one, with
  the traversal state carried to it.
\<close>

fun dfs_visits ::
  "('r, 'g, 'a, 't, 'p) Env \<Rightarrow> ('r, 'g, 't, 'p) HPYPModel \<Rightarrow> WrappedNodeList list \<Rightarrow> 'a Traversal
    \<Rightarrow> error + (WrappedNodeList \<times> 'a Traversal) list" where
  "dfs_visits E m [] tr = Inr []"
| "dfs_visits E m (pth # rest) tr =
     (if pth = [] then Inr []
      else
        (case next_traversal E m pth tr of
           Inl e \<Rightarrow> Inl e
         | Inr tr' \<Rightarrow>
        (case dfs_visits E m rest tr' of
           Inl e \<Rightarrow> Inl e
         | Inr vs \<Rightarrow> Inr ((pth, tr') # vs))))"

text \<open>
  The contribution of one restaurant to the joint log-probability in the words of the
  specification: for total counts \<open>c\<close> and \<open>t\<close>,
  \<open>logKramp(\<alpha> + d, d, t - 1) - logKramp(\<alpha> + 1, 1, c - 1)\<close> plus the sum over the types
  of \<open>logStirling(c(y), t(y))\<close>, plus at the root the sum over the types of
  \<open>t(y) log(baseProb)\<close>; a restaurant with \<open>c = 1\<close> contributes \<open>0\<close>.
\<close>

definition restaurant_logProb ::
  "('r, 'g, 'a) Restaurant \<Rightarrow> ('a, 'g) Utils \<Rightarrow> 'r \<Rightarrow> 'a \<Rightarrow> real \<Rightarrow> real \<Rightarrow> bool \<Rightarrow> real \<Rightarrow> real" where
  "restaurant_logProb R U r stirlingGen d \<alpha> at_root bp =
     (if getC_total R r = 1 then 0
      else logKramp U (\<alpha> + d) d (getT_total R r - 1) - logKramp U (\<alpha> + 1) 1 (getC_total R r - 1)
           + sum_list (map (\<lambda>y. getLog U stirlingGen (getC R r y) (getT R r y))
                        (getTypeVector R r))
           + (if at_root
              then sum_list (map (\<lambda>y. real_of_int (getT R r y) * ln bp) (getTypeVector R r))
              else 0))"

text \<open>The contribution of the last node of a visited path, read off its traversal state.\<close>

definition visit_logProb ::
  "('r, 'g, 'a, 't, 'p) Env \<Rightarrow> ('a, 'g) Utils \<Rightarrow> ('r, 'g, 't, 'p) HPYPModel
    \<Rightarrow> WrappedNodeList \<times> 'a Traversal \<Rightarrow> real" where
  "visit_logProb E U m v =
     restaurant_logProb (restaurant E) U (store m (payload (last (fst v))))
       (tr_payloadDataPath (snd v) ! (length (fst v) - 1))
       (tr_discountPath (snd v) ! (length (fst v) - 1))
       (tr_concentrationPath (snd v) ! (length (fst v) - 1))
       (length (fst v) = 1) (baseProb m)"

text \<open>
  A model on the chain of two nodes in which the root and its child both hold two
  customers of type 0 at one table: the state after \<open>buildTree(2)\<close> on \<open>0 0\<close> and one more
  \<open>insertObservation(0, 1, 0)\<close>, every customer joining a table when it could.
\<close>

definition busy_store :: "payload \<Rightarrow> crp" where
  "busy_store = (\<lambda>a y. (0, 0))(0 := (\<lambda>y. (0, 0))(0 := (2, 1)), 1 := (\<lambda>y. (0, 0))(0 := (2, 1)))"

definition busy_model :: "'g \<Rightarrow> (crp, 'g, WrappedNodeList, unit) HPYPModel" where
  "busy_model g = new_HPYPModel [0, 0, 0] (chain 1) () 2 busy_store g"

text \<open>
  The round trip of the specification: \<open>insertObservation\<close> for a context and a type,
  then \<open>removeObservation\<close> for the same context and type.
\<close>

definition insertThenRemove ::
  "('r, 'g, 'a, 't, 'p) Env \<Rightarrow> ('r, 'g, 't, 'p) HPYPModel \<Rightarrow> l_type \<Rightarrow> l_type \<Rightarrow> e_type
    \<Rightarrow> 'a list \<Rightarrow> WrappedNodeList option \<Rightarrow> error + ('r, 'g, 't, 'p) HPYPModel" where
  "insertThenRemove E m start stop obs payloadDataPath cached_path =
     (case insertObservation E m start stop obs cached_path of
        Inl e \<Rightarrow> Inl e
      | Inr (prob_path, m1) \<Rightarrow>
          removeObservation E m1 start stop obs payloadDataPath cached_path)"

text \<open>
  \<open>removeCustomer\<close> undoes \<open>addCustomer\<close> on the payload state \<open>r\<close> for the type \<open>y\<close>:
  whatever the parent probability, the parameters, the weight and the random source,
  removing with the same discount and weight from the state that \<open>addCustomer\<close> left
  returns the fraction that \<open>addCustomer\<close> returned and leaves \<open>r\<close>.
\<close>

definition remove_undoes_add :: "('r, 'g, 'a) Restaurant \<Rightarrow> 'r \<Rightarrow> e_type \<Rightarrow> bool" where
  "remove_undoes_add R r y =
     (\<forall>parentProb d a w extra g g'.
        fst (removeCustomer R (fst (snd (addCustomer R r y parentProb d a None w g))) y d
               extra w g')
          = fst (addCustomer R r y parentProb d a None w g)
        \<and> fst (snd (removeCustomer R (fst (snd (addCustomer R r y parentProb d a None w g)))
                       y d extra w g')) = r)"

text \<open>
  The unnormalised log-weight of the candidate table count \<open>tw\<close> for the node \<open>j\<close> of a path
  and a type \<open>y\<close>, as the specification words it: with a parent,
  \<open>logKramp(\<alpha> + d, d, otherT + tw - 1) - logKramp(\<alpha>\<^sub>P + 1, 1, parentOtherC + tw - 1)
    + logStirling(cw, tw) + logStirling(newParentCw, parentTw)\<close>,
  or \<open>-\<infinity>\<close> when \<open>newParentCw < parentTw\<close>; at the root the parent terms give way to
  \<open>tw * log baseProb\<close>.
\<close>

definition logWeight ::
  "('r, 'g, 'a) Restaurant \<Rightarrow> ('a, 'g) Utils \<Rightarrow> (payload \<Rightarrow> 'r) \<Rightarrow> WrappedNodeList \<Rightarrow> d_vec
    \<Rightarrow> d_vec \<Rightarrow> 'a list \<Rightarrow> real \<Rightarrow> e_type \<Rightarrow> int \<Rightarrow> int \<Rightarrow> xreal" where
  "logWeight R U st pth discountPath concentrationPath payloadDataPath bp y j tw =
     (let node = st (payload (pth ! nat j));
          cw = getC R node y;
          t = getT R node y;
          otherT = getT_total R node - t;
          own = logKramp U (concentrationPath ! nat j + discountPath ! nat j)
                  (discountPath ! nat j) (otherT + tw - 1);
          stirling = getLog U (payloadDataPath ! nat j) cw tw
      in if j > 0 then
           (let parent = st (payload (pth ! nat (j - 1)));
                parentTw = getT R parent y;
                parentOtherC = getC_total R parent - t;
                newParentCw = getC R parent y - t + tw
            in if newParentCw < parentTw then MInf
               else Fin (own
                         - logKramp U (concentrationPath ! nat (j - 1) + 1) 1
                             (parentOtherC + tw - 1)
                         + stirling
                         + getLog U (payloadDataPath ! nat (j - 1)) newParentCw parentTw))
         else Fin (own + stirling + real_of_int tw * ln bp))"

text \<open>
  The state after the node \<open>j\<close> of the path has been given \<open>tw'\<close> tables of type \<open>y\<close>: the
  node's \<open>t\<close> is \<open>tw'\<close> and, below the root, the parent's \<open>c\<close> is \<open>newParentCw\<close>.
\<close>

definition resampled ::
  "('r, 'g, 'a) Restaurant \<Rightarrow> (payload \<Rightarrow> 'r) \<Rightarrow> WrappedNodeList \<Rightarrow> e_type \<Rightarrow> int \<Rightarrow> int
    \<Rightarrow> payload \<Rightarrow> 'r" where
  "resampled R st pth y j tw' =
     (let node = payload (pth ! nat j);
          st1 = st(node := setT R (st node) y tw')
      in if j > 0 then
           (let parent = payload (pth ! nat (j - 1))
            in st1(parent := setC R (st parent) y
                               (getC R (st parent) y - getT R (st node) y + tw')))
         else st1)"

text \<open>
  The invariants of the seating, over the nodes of the tree as the DFS iterator lists
  them: a node is the path from the root to it, its parent the path without its last
  entry.

  Modelled from the spec: per-node consistency is \<open>t(n, y) \<le> c(n, y)\<close> and
  \<open>t(n, y) \<ge> 1 \<longleftrightarrow> c(n, y) \<ge> 1\<close> for every type (and counts are not negative); hierarchical
  consistency is \<open>c(P, y) \<ge> \<Sum> t(C, y)\<close> over the children \<open>C\<close> of \<open>P\<close>, for every node with
  a parent \<open>P\<close> and every type.
\<close>

definition node_payload :: "WrappedNodeList \<Rightarrow> payload" where
  "node_payload q = payload (last q)"

definition children :: "WrappedNodeList list \<Rightarrow> WrappedNodeList \<Rightarrow> WrappedNodeList list" where
  "children paths P = filter (\<lambda>C. C \<noteq> [] \<and> butlast C = P) paths"

definition tables_of_children ::
  "('r, 'g, 'a) Restaurant \<Rightarrow> (payload \<Rightarrow> 'r) \<Rightarrow> WrappedNodeList list \<Rightarrow> WrappedNodeList
    \<Rightarrow> e_type \<Rightarrow> int" where
  "tables_of_children R st paths P y =
     sum_list (map (\<lambda>C. getT R (st (node_payload C)) y) (children paths P))"

definition node_consistent :: "('r, 'g, 'a) Restaurant \<Rightarrow> 'r \<Rightarrow> bool" where
  "node_consistent R r =
     (\<forall>y. 0 \<le> getT R r y \<and> getT R r y \<le> getC R r y \<and> (1 \<le> getT R r y \<longleftrightarrow> 1 \<le> getC R r y))"

definition nodes_consistent ::
  "('r, 'g, 'a) Restaurant \<Rightarrow> (payload \<Rightarrow> 'r) \<Rightarrow> WrappedNodeList list \<Rightarrow> bool" where
  "nodes_consistent R st paths = (\<forall>q \<in> set paths. node_consistent R (st (node_payload q)))"

definition hier_consistent ::
  "('r, 'g, 'a) Restaurant \<Rightarrow> (payload \<Rightarrow> 'r) \<Rightarrow> WrappedNodeList list \<Rightarrow> bool" where
  "hier_consistent R st paths =
     (\<forall>N \<in> set paths. 2 \<le> length N \<longrightarrow>
        (\<forall>y. tables_of_children R st paths (butlast N) y
               \<le> getC R (st (node_payload (butlast N))) y))"

text \<open>
  The customers of a node that no table of a child has sent: \<open>c(P, y)\<close> less the tables of
  type \<open>y\<close> in the children of \<open>P\<close>.
\<close>

definition own_customers ::
  "('r, 'g, 'a) Restaurant \<Rightarrow> (payload \<Rightarrow> 'r) \<Rightarrow> WrappedNodeList list \<Rightarrow> WrappedNodeList
    \<Rightarrow> e_type \<Rightarrow> int" where
  "own_customers R st paths P y =
     getC R (st (node_payload P)) y - tables_of_children R st paths P y"

text \<open>
  What the DFS iterator of a tree lists: every node once, as a non-empty path whose
  non-empty prefixes are nodes too, and no two nodes with the same payload.
\<close>

definition dfs_wellformed :: "WrappedNodeList list \<Rightarrow> bool" where
  "dfs_wellformed paths =
     (distinct paths \<and> [] \<notin> set paths
      \<and> (\<forall>q \<in> set paths. \<forall>k \<in> {1 .. length q}. take k q \<in> set paths)
      \<and> inj_on node_payload (set paths))"

text \<open>
  Modelled from the spec: the contracts of the collaborators of the samplers. The type
  vector lists types with a customer. In an add/remove restaurant \<^verbatim>\<open>addCustomer\<close> seats
  one customer of the type, at a new table exactly when it returns a non-zero fraction,
  \<^verbatim>\<open>removeCustomer\<close> takes one customer away where there is one, closing a table exactly
  when it returns a non-zero fraction, and both keep the restaurant consistent. In a
  compact restaurant \<^verbatim>\<open>setT\<close> and \<^verbatim>\<open>setC\<close> write the one count they name. The vector
  utilities keep the length of their (first) argument and the sampler returns an index
  into a non-empty vector of weights.
\<close>

definition types_contract :: "('r, 'g, 'a) Restaurant \<Rightarrow> bool" where
  "types_contract R = (\<forall>r. \<forall>y \<in> set (getTypeVector R r). 1 \<le> getC R r y)"

definition addRemove_contract :: "('r, 'g, 'a) Restaurant \<Rightarrow> bool" where
  "addRemove_contract R =
     ((\<forall>r y p d a extra w g.
         node_consistent R r \<longrightarrow>
           (case addCustomer R r y p d a extra w g of
              (w', r', g') \<Rightarrow>
                node_consistent R r'
                \<and> (\<forall>y'. getC R r' y' = getC R r y' + (if y' = y then 1 else 0))
                \<and> (\<forall>y'. getT R r' y' = getT R r y' + (if y' = y \<and> w' \<noteq> 0 then 1 else 0))))
      \<and> (\<forall>r y d extra w g.
         node_consistent R r \<and> 1 \<le> getC R r y \<longrightarrow>
           (case removeCustomer R r y d extra w g of
              (w', r', g') \<Rightarrow>
                node_consistent R r'
                \<and> (\<forall>y'. getC R r' y' = getC R r y' - (if y' = y then 1 else 0))
                \<and> (\<forall>y'. getT R r' y' = getT R r y' - (if y' = y \<and> w' \<noteq> 0 then 1 else 0)))))"

definition compact_contract :: "('r, 'g, 'a) Restaurant \<Rightarrow> bool" where
  "compact_contract R =
     (\<forall>r y v y'.
        getT R (setT R r y v) y' = (if y' = y then v else getT R r y')
        \<and> getC R (setT R r y v) y' = getC R r y'
        \<and> getC R (setC R r y v) y' = (if y' = y then v else getC R r y')
        \<and> getT R (setC R r y v) y' = getT R r y')"

definition utils_contract :: "('a, 'g) Utils \<Rightarrow> bool" where
  "utils_contract U =
     ((\<forall>v. length (subMax_vec U v) = length v)
      \<and> (\<forall>v w. length w = length v \<longrightarrow> length (add_vec U v w) = length v)
      \<and> (\<forall>v. length (exp_vec U v) = length v)
      \<and> (\<forall>pdf g. pdf \<noteq> [] \<longrightarrow>
            0 \<le> fst (sample_unnormalized_pdf U pdf 0 g)
            \<and> fst (sample_unnormalized_pdf U pdf 0 g) < int (length pdf)))"

definition sweep_contract :: "('r, 'g, 'a) Restaurant \<Rightarrow> ('a, 'g) Utils \<Rightarrow> bool \<Rightarrow> bool" where
  "sweep_contract R U directGibbs =
     (types_contract R
      \<and> (if directGibbs then compact_contract R \<and> utils_contract U else addRemove_contract R))"

text \<open>
  A second seating on the chain of two nodes: the child has two customers of type 0 at
  two tables, which are the two customers of the root.
\<close>

definition spread_store :: "payload \<Rightarrow> crp" where
  "spread_store = (\<lambda>a y. (0, 0))(0 := (\<lambda>y. (0, 0))(0 := (2, 1)), 1 := (\<lambda>y. (0, 0))(0 := (2, 2)))"

definition spread_model :: "'g \<Rightarrow> (crp, 'g, WrappedNodeList, unit) HPYPModel" where
  "spread_model g = new_HPYPModel [0, 0, 0] (chain 1) () 2 spread_store g"

text \<open>
  The walk of direct Gibbs sampling as the specification words it: starting at the node
  \<open>j\<close> and walking upward, each round resamples the table count of its node as
  \<open>directGibbs_round\<close> does, and the walk continues upward exactly when the sampled count
  differs from the old one, which is when the round leaves \<open>j - 1\<close>.
\<close>

function resample_walk ::
  "('r, 'g, 'a) Restaurant \<Rightarrow> ('a, 'g) Utils \<Rightarrow> WrappedNodeList \<Rightarrow> d_vec \<Rightarrow> d_vec \<Rightarrow> 'a list
    \<Rightarrow> real \<Rightarrow> e_type \<Rightarrow> int \<Rightarrow> (payload \<Rightarrow> 'r) \<times> 'g \<Rightarrow> error + (payload \<Rightarrow> 'r) \<times> 'g" where
  "resample_walk R U pth discountPath concentrationPath payloadDataPath bp y j s =
     (if j = - 1 then Inr s
      else
        (case directGibbs_round R U pth discountPath concentrationPath payloadDataPath bp y
                j s of
           Inl e \<Rightarrow> Inl e
         | Inr (goUp, j', s') \<Rightarrow>
             if j' = j - 1 then
               resample_walk R U pth discountPath concentrationPath payloadDataPath bp y
                 (j - 1) s'
             else Inr s'))"
  by pat_completeness auto
termination
proof (relation "measure (\<lambda>(R, U, pth, discountPath, concentrationPath, payloadDataPath, bp,
                  y, j, s). nat (j + 1))", goal_cases)
  case 1
  show ?case by simp
next
  case (2 R U pth discountPath concentrationPath payloadDataPath bp y j s r goUp r' j' s')
  then have "0 \<le> j"
    by (auto simp: directGibbs_round_def directGibbs_logProbs_def vec_at_def Let_def
        split: sum.splits if_splits)
  then show ?case by simp
qed

declare resample_walk.simps [simp del]

section \<open>Evaluation of the reference collaborators\<close>

lemmas chain_defs = ref_env_def ref_model_def new_HPYPModel_def chain_tree_def chain_def
  chain_node_def const_parameters_def crp_restaurant_def crp_c_def crp_t_def crp_types_def
  ref_store_def coin_def never_def vec_at_def vec_back_def upto.simps computeProbabilityPath_def

lemmas zo_defs = getFactory_make_def getFactory_recycle_def zo_env_def zo_model_def new_HPYPModel_def zo_tree_def zo_context_def
  const_parameters_def crp_restaurant_def crp_c_def crp_t_def crp_types_def zo_store_def
  zo_root_def zo_A_def zo_B_def coin_def never_def vec_at_def vec_back_def upto.simps
  computeProbabilityPath_def

lemma vec_at_in: "i < length v \<Longrightarrow> vec_at v (int i) = Inr (v ! i)"
  by (simp add: vec_at_def)

lemma ref_computeProbabilityPath:
  "computeProbabilityPath (ref_env coin) (ref_model []) (chain 1) [1/2, 1/2] [1, 1] 0
     = Inr [1/2, 3/4, 13/16]"
  by (simp add: chain_defs)

lemma zo_predictWithFragmentation:
  "predictWithFragmentation (zo_env coin) (zo_model []) 1 2 1 = Inr (43/64, zo_model [])"
  by (simp add: predictWithFragmentation_def zo_defs Let_def)

lemma zo_predictBelow:
  "predictBelow (zo_env coin) (zo_model []) 1 2 1 = Inr (43/64, zo_model [])"
  by (simp add: predictBelow_def zo_defs Let_def)

lemma zo_predict:
  "predict (zo_env coin) (zo_model []) 1 2 1 = Inr (9/16, zo_model [])"
  by (simp add: predict_def zo_defs Let_def)

lemma zo_predict_exact:
  "predict (zo_env coin) (zo_model []) 0 2 1 = Inr (43/64, zo_model [])"
  by (simp add: predict_def zo_defs Let_def)

lemma zo_predictiveDistribution:
  "predictiveDistribution (zo_env coin) (zo_model []) 0 2
     = Inr ([21/64, 43/64], zo_model [])"
  by (simp add: predictiveDistribution_def zo_defs Let_def)

lemma zo_predictiveDistributionWithMixing:
  "predictiveDistributionWithMixing (zo_env coin) (zo_model []) 0 2 [1/4, 1/4]
     = Inr ([51/128, 77/128], zo_model [])"
  by (simp add: predictiveDistributionWithMixing_def zo_defs Let_def)

lemma zo_onlyNew_contract: "onlyNew_contract (restaurant (zo_env coin))"
  by (simp add: onlyNew_contract_def zo_env_def crp_restaurant_def)

lemma zo_on_exact_node: "on_exact_node (zo_env coin) (zo_model []) 0 2"
  by (simp add: on_exact_node_def zo_defs)

section \<open>The probability path\<close>

lemma computeProbabilityPath_loop_char:
  assumes "k + length pth \<le> length dp" "k + length pth \<le> length cp"
    and "out \<noteq> []" "last out = prob"
  shows "\<exists>p. computeProbabilityPath_loop R st pth dp cp obs (int k) prob out = Inr p
           \<and> length p = length out + length pth
           \<and> take (length out) p = out
           \<and> (\<forall>i < length pth. p ! (length out + i) =
                 computeProbability R (st (payload (pth ! i))) obs (p ! (length out + i - 1))
                   (dp ! (k + i)) (cp ! (k + i)))"
  using assms
proof (induction pth arbitrary: k prob out)
  case Nil
  then show ?case by simp
next
  case (Cons n rest)
  let ?prob' = "computeProbability R (st (payload n)) obs prob (dp ! k) (cp ! k)"
  let ?out' = "out @ [?prob']"
  have kd: "k < length dp" and kc: "k < length cp" using Cons.prems by auto
  have step: "computeProbabilityPath_loop R st (n # rest) dp cp obs (int k) prob out
      = computeProbabilityPath_loop R st rest dp cp obs (int (Suc k)) ?prob' ?out'"
    using kd kc by (simp add: vec_at_in Let_def add.commute)
  from Cons.IH[of "Suc k" ?out' ?prob'] Cons.prems
  obtain p where p:
    "computeProbabilityPath_loop R st rest dp cp obs (int (Suc k)) ?prob' ?out' = Inr p"
    "length p = length ?out' + length rest"
    "take (length ?out') p = ?out'"
    "\<forall>i < length rest. p ! (length ?out' + i) =
        computeProbability R (st (payload (rest ! i))) obs (p ! (length ?out' + i - 1))
          (dp ! (Suc k + i)) (cp ! (Suc k + i))"
    by auto
  have tk: "take (length out) p = out"
  proof -
    have "take (length out) p = take (length out) (take (length ?out') p)"
      by (simp add: min_def)
    then show ?thesis by (simp only: p(3)) simp
  qed
  have pl: "p ! length out = ?prob'"
  proof -
    have "p ! length out = take (length ?out') p ! length out" by simp
    then show ?thesis by (simp only: p(3)) simp
  qed
  have plm: "p ! (length out - 1) = prob"
  proof -
    have "length out - 1 < length out" using Cons.prems(3) by (cases out) auto
    then have "p ! (length out - 1) = out ! (length out - 1)"
      using tk by (metis nth_take)
    then show ?thesis using Cons.prems(3,4) by (simp add: last_conv_nth)
  qed
  have "\<forall>i < length (n # rest). p ! (length out + i) =
          computeProbability R (st (payload ((n # rest) ! i))) obs (p ! (length out + i - 1))
            (dp ! (k + i)) (cp ! (k + i))"
  proof (intro allI impI)
    fix i assume "i < length (n # rest)"
    show "p ! (length out + i) =
            computeProbability R (st (payload ((n # rest) ! i))) obs (p ! (length out + i - 1))
              (dp ! (k + i)) (cp ! (k + i))"
    proof (cases i)
      case 0
      then show ?thesis using pl plm by simp
    next
      case (Suc i')
      then have "i' < length rest" using \<open>i < length (n # rest)\<close> by simp
      with p(4) Suc show ?thesis by simp
    qed
  qed
  with step p(1,2) tk show ?case by simp
qed

lemma computeProbabilityPath_char:
  assumes "length discount_path = length pth" and "length concentration_path = length pth"
  shows "\<exists>p. computeProbabilityPath E m pth discount_path concentration_path obs = Inr p
           \<and> length p = length pth + 1
           \<and> p ! 0 = baseProb m
           \<and> (\<forall>j. 1 \<le> j \<and> j \<le> length pth \<longrightarrow>
                 p ! j = computeProbability (restaurant E) (store m (payload (pth ! (j - 1))))
                           obs (p ! (j - 1)) (discount_path ! (j - 1))
                           (concentration_path ! (j - 1)))"
proof -
  from computeProbabilityPath_loop_char[of 0 pth discount_path concentration_path
         "[baseProb m]" "baseProb m" "restaurant E" "store m" obs] assms
  obtain p where p:
    "computeProbabilityPath E m pth discount_path concentration_path obs = Inr p"
    "length p = 1 + length pth" "take 1 p = [baseProb m]"
    "\<forall>i < length pth. p ! (1 + i) =
        computeProbability (restaurant E) (store m (payload (pth ! i))) obs (p ! (1 + i - 1))
          (discount_path ! i) (concentration_path ! i)"
    by (auto simp: computeProbabilityPath_def)
  have p0: "p ! 0 = baseProb m"
    using p(2,3) by (cases p) auto
  have "\<forall>j. 1 \<le> j \<and> j \<le> length pth \<longrightarrow>
          p ! j = computeProbability (restaurant E) (store m (payload (pth ! (j - 1)))) obs
                    (p ! (j - 1)) (discount_path ! (j - 1)) (concentration_path ! (j - 1))"
  proof (intro allI impI)
    fix j assume j: "1 \<le> j \<and> j \<le> length pth"
    then have "j - 1 < length pth" "1 + (j - 1) = j" by auto
    with p(4)
    show "p ! j = computeProbability (restaurant E) (store m (payload (pth ! (j - 1)))) obs
                    (p ! (j - 1)) (discount_path ! (j - 1)) (concentration_path ! (j - 1))"
      by (metis add_diff_cancel_left')
  qed
  with p(1,2) p0 show ?thesis by simp
qed

text \<open>
  Claim C1. For a path with aligned discount and concentration vectors, in a model whose
  \<open>baseProb\<close> is the \<open>1/numTypes\<close> of the constructor, \<open>computeProbabilityPath\<close> returns a
  vector \<open>p\<close> of length \<open>|path|+1\<close> with \<open>p[0] = 1/numTypes\<close> and, for \<open>j = 1..|path|\<close>,
  \<open>p[j] = computeProbability(path[j-1].payload, obs, p[j-1], d[j-1], alpha[j-1])\<close>: each
  entry is computed from the entry before it, from the root to the deepest node.
\<close>

theorem computeProbabilityPath_entries:
  assumes "length discount_path = length pth" and "length concentration_path = length pth"
    and "numTypes m \<noteq> 0" and "baseProb m = 1 / real_of_int (numTypes m)"
  shows "\<exists>p. computeProbabilityPath E m pth discount_path concentration_path obs = Inr p
           \<and> length p = length pth + 1
           \<and> p ! 0 = 1 / real_of_int (numTypes m)
           \<and> (\<forall>j. 1 \<le> j \<and> j \<le> length pth \<longrightarrow>
                 p ! j = computeProbability (restaurant E) (store m (payload (pth ! (j - 1))))
                           obs (p ! (j - 1)) (discount_path ! (j - 1))
                           (concentration_path ! (j - 1)))"
  using computeProbabilityPath_char[OF assms(1,2), of E m obs] assms(4) by simp

theorem computeProbabilityPath_entries_witness:
  "length [1/2, 1/2 :: real] = length (chain 1) \<and> length [1, 1 :: real] = length (chain 1)
   \<and> numTypes (ref_model ([] :: nat list)) \<noteq> 0
   \<and> baseProb (ref_model ([] :: nat list))
        = 1 / real_of_int (numTypes (ref_model ([] :: nat list)))
   \<and> (\<exists>p. computeProbabilityPath (ref_env coin) (ref_model []) (chain 1) [1/2, 1/2] [1, 1] 0
             = Inr p
           \<and> length p = length (chain 1) + 1
           \<and> p ! 0 = 1 / real_of_int (numTypes (ref_model ([] :: nat list)))
           \<and> p = [1/2, 3/4, 13/16])"
proof -
  have l: "length [1/2, 1/2 :: real] = length (chain 1)"
    "length [1, 1 :: real] = length (chain 1)"
    by (simp_all add: chain_def)
  have h: "numTypes (ref_model ([] :: nat list)) \<noteq> 0"
    "baseProb (ref_model ([] :: nat list))
       = 1 / real_of_int (numTypes (ref_model ([] :: nat list)))"
    by (simp_all add: ref_model_def new_HPYPModel_def)
  show ?thesis
    using computeProbabilityPath_entries[OF l h, of "ref_env coin" 0] l h
      ref_computeProbabilityPath
    by (simp add: ref_model_def new_HPYPModel_def)
qed

section \<open>Seating an observation along a path\<close>

lemma updatePath_loop_walk:
  assumes "k \<le> length pth" "k \<le> length p" "k \<le> length d" "k \<le> length \<alpha>"
  shows "updatePath_loop R (rev (take k pth)) p d \<alpha> obs (int k - 1) w s
           = Inr (updatePath_walk R pth p d \<alpha> obs k w s)"
  using assms
proof (induction k arbitrary: w s)
  case 0
  then show ?case by simp
next
  case (Suc j)
  have tk: "rev (take (Suc j) pth) = pth ! j # rev (take j pth)"
    using Suc.prems(1) by (simp add: take_Suc_conv_app_nth)
  have ix: "vec_at p (int j) = Inr (p ! j)" "vec_at d (int j) = Inr (d ! j)"
    "vec_at \<alpha> (int j) = Inr (\<alpha> ! j)"
    using Suc.prems by (simp_all add: vec_at_in)
  have IH: "\<And>w s. updatePath_loop R (rev (take j pth)) p d \<alpha> obs (int j - 1) w s
           = Inr (updatePath_walk R pth p d \<alpha> obs j w s)"
    using Suc.IH Suc.prems by simp
  show ?case
    by (simp add: tk ix IH split: prod.split)
qed

text \<open>
  Claim C2. With a probability path of length \<open>|path|+1\<close> and discount and concentration
  vectors of length \<open>|path|\<close>, \<open>updatePath\<close> is the upward walk of the specification: from
  the deepest node to the root, \<open>addCustomer\<close> at the node of index \<open>j\<close> with the entry \<open>j\<close>
  of the probability path as parent probability and the fraction returned one level
  below as weight, the first weight being 1, and no further call once a fraction is 0.
\<close>

theorem updatePath_is_upward_walk:
  assumes "length prob_path = length pth + 1" and "length discount_path = length pth"
    and "length concentration_path = length pth"
  shows "updatePath E m pth prob_path discount_path concentration_path obs =
           Inr (m\<lparr>store := fst (updatePath_walk (restaurant E) pth prob_path discount_path
                                  concentration_path obs (length pth) 1 (store m, rng m)),
                  rng := snd (updatePath_walk (restaurant E) pth prob_path discount_path
                                concentration_path obs (length pth) 1 (store m, rng m))\<rparr>)"
  using updatePath_loop_walk[of "length pth" pth prob_path discount_path concentration_path
          "restaurant E" obs 1 "(store m, rng m)"] assms
  by (simp add: updatePath_def split: prod.split)

lemma ref_updatePath_walk:
  "updatePath_walk (restaurant (ref_env coin)) (chain 1) [1/2, 3/4, 13/16] [1/2, 1/2] [1, 1] 0
     (length (chain 1)) 1 (store (ref_model [1]), rng (ref_model [1]))
   = (ref_store(1 := (ref_store 1)(0 := (2, 2)), 0 := (ref_store 0)(0 := (3, 1))), [])"
  by (simp add: chain_defs numeral_2_eq_2)

theorem updatePath_is_upward_walk_witness:
  "length [1/2, 3/4, 13/16 :: real] = length (chain 1) + 1
   \<and> length [1/2, 1/2 :: real] = length (chain 1) \<and> length [1, 1 :: real] = length (chain 1)
   \<and> updatePath (ref_env coin) (ref_model [1]) (chain 1) [1/2, 3/4, 13/16] [1/2, 1/2]
         [1, 1] 0
       = Inr ((ref_model [1])
                \<lparr>store := ref_store(1 := (ref_store 1)(0 := (2, 2)),
                                     0 := (ref_store 0)(0 := (3, 1))),
                 rng := []\<rparr>)"
proof -
  have l: "length [1/2, 3/4, 13/16 :: real] = length (chain 1) + 1"
    "length [1/2, 1/2 :: real] = length (chain 1)" "length [1, 1 :: real] = length (chain 1)"
    by (simp_all add: chain_def)
  show ?thesis
    using updatePath_is_upward_walk[OF l, of "ref_env coin" "ref_model [1]" 0] l
    by (simp only: ref_updatePath_walk fst_conv snd_conv)
qed

section \<open>The assertion of removeObservation\<close>

text \<open>
  Claim C9. Every call of \<open>removeObservation\<close> with \<^verbatim>\<open>cached_path == NULL\<close> reaches the
  assertion \<^verbatim>\<open>path.back().end == (*cached_path).back().end\<close>, which is not guarded by the
  test of \<^verbatim>\<open>cached_path\<close>: the call ends in the dereference of the null pointer (or, when
  the looked-up path is empty, already in \<^verbatim>\<open>back()\<close> on the empty path), and no customer
  is removed.
\<close>

theorem removeObservation_null_cached_path:
  "removeObservation E m start stop obs payloadDataPath None =
     Inl (if findLongestSuffix (contextTree E) (tree m) (seq m) start stop = []
          then EmptyContainer else NullDereference)"
  by (simp add: removeObservation_def vec_back_def)

section \<open>Prediction modes\<close>

text \<open>
  Claim C7. When the virtual longest-suffix lookup reports no fragmentation
  (\<open>fragmentLen = 0\<close>), \<open>predictWithFragmentation\<close> returns what \<open>predictBelow\<close> returns for the
  same \<open>(start, stop, obs)\<close>; and for a context that lies on an exact node, \<open>predict\<close>,
  \<open>predictBelow\<close> and \<open>predictWithFragmentation\<close> return the same value.
\<close>

theorem prediction_modes_agree:
  "(fst (findLongestSuffixVirtual (contextTree E) (tree m) (seq m) start stop) = 0 \<longrightarrow>
      predictWithFragmentation E m start stop obs = predictBelow E m start stop obs)
   \<and> (on_exact_node E m start stop \<longrightarrow>
        predict E m start stop obs = predictBelow E m start stop obs
        \<and> predictBelow E m start stop obs = predictWithFragmentation E m start stop obs)"
  by (auto simp: predictWithFragmentation_def predictBelow_def predict_def on_exact_node_def
      Let_def split: sum.splits)

theorem prediction_modes_agree_witness:
  "fst (findLongestSuffixVirtual (contextTree (zo_env coin)) (tree (zo_model ([] :: nat list)))
          (seq (zo_model ([] :: nat list))) 0 2) = 0
   \<and> on_exact_node (zo_env coin) (zo_model []) 0 2
   \<and> predictWithFragmentation (zo_env coin) (zo_model []) 0 2 1
        = predictBelow (zo_env coin) (zo_model []) 0 2 1
   \<and> predict (zo_env coin) (zo_model []) 0 2 1 = predictBelow (zo_env coin) (zo_model []) 0 2 1
   \<and> predict (zo_env coin) (zo_model []) 0 2 1 = Inr (43/64, zo_model [])"
proof -
  have z: "fst (findLongestSuffixVirtual (contextTree (zo_env coin))
                  (tree (zo_model ([] :: nat list))) (seq (zo_model ([] :: nat list))) 0 2) = 0"
    by (simp add: zo_defs)
  show ?thesis
    using prediction_modes_agree[of "zo_env coin" "zo_model []" 0 2 1] z zo_on_exact_node
      zo_predict_exact
    by metis
qed

section \<open>What the predictive queries leave unchanged\<close>

lemma predictWithFragmentation_frame:
  assumes "onlyNew_contract (restaurant E)"
    and a: "predictWithFragmentation E m start stop obs = Inr (v, m')"
  shows "m' = m\<lparr>rng := rng m'\<rparr>"
proof -
  have keep: "\<And>old new dBefore dAfter g old' new' g'.
      updateAfterSplit (restaurant E) old new dBefore dAfter True g = (old', new', g')
        \<Longrightarrow> old' = old"
    using assms(1) unfolding onlyNew_contract_def by (metis fst_conv)
  have rec: "getFactory_recycle (length (outstanding m))
               (m\<lparr>outstanding := outstanding m @ [f], store := (store m)(p := store m p),
                   rng := g', outstanding := (outstanding m @ [f])[length (outstanding m) := n']\<rparr>)
             = m\<lparr>rng := g'\<rparr>" for f p g' n'
    by (simp add: getFactory_recycle_def)
  show ?thesis
  proof (cases "fst (findLongestSuffixVirtual (contextTree E) (tree m) (seq m) start stop) = 0")
    case True
    with a show ?thesis
      by (auto simp: predictWithFragmentation_def Let_def split: sum.splits)
  next
    case False
    with a show ?thesis
      apply (simp add: predictWithFragmentation_def getFactory_make_def Let_def
          split: sum.splits prod.splits)
      apply (elim exE conjE)
      apply (drule keep)
      apply (auto simp: getFactory_recycle_def)
      done
  qed
qed

text \<open>
  Claim C10. The queries \<open>predict\<close>, \<open>predictBelow\<close>, \<open>predictiveDistribution\<close> and
  \<open>predictiveDistributionWithMixing\<close> return the model as they found it: the tree, the
  parameters and the payload of every node, hence every count \<open>c\<close> and \<open>t\<close>.
  \<open>predictWithFragmentation\<close> writes its transient payload only, provided that
  \<open>updateAfterSplit\<close> keeps to its only-new mode, and recycles it before it returns: the
  model it returns differs from the one it found at most in the state of the random
  source, and the factory has the payloads outstanding that it had before the call.
\<close>

theorem predictive_queries_frame:
  assumes "onlyNew_contract (restaurant E)"
  shows "(\<forall>v m'. predict E m start stop obs = Inr (v, m') \<longrightarrow> m' = m)
     \<and> (\<forall>v m'. predictBelow E m start stop obs = Inr (v, m') \<longrightarrow> m' = m)
     \<and> (\<forall>v m'. predictiveDistribution E m start stop = Inr (v, m') \<longrightarrow> m' = m)
     \<and> (\<forall>v m'. predictiveDistributionWithMixing E m start stop mixingWeights = Inr (v, m')
            \<longrightarrow> m' = m)
     \<and> (\<forall>v m'. predictWithFragmentation E m start stop obs = Inr (v, m') \<longrightarrow>
            m' = m\<lparr>rng := rng m'\<rparr> \<and> outstanding m' = outstanding m)"
proof (intro conjI allI impI)
  fix v m' assume "predict E m start stop obs = Inr (v, m')"
  then show "m' = m"
    by (auto simp: predict_def Let_def split: sum.splits)
next
  fix v m' assume "predictBelow E m start stop obs = Inr (v, m')"
  then show "m' = m"
    by (auto simp: predictBelow_def Let_def split: sum.splits)
next
  fix v m' assume "predictiveDistribution E m start stop = Inr (v, m')"
  then show "m' = m"
    by (auto simp: predictiveDistribution_def Let_def split: sum.splits)
next
  fix v m'
  assume "predictiveDistributionWithMixing E m start stop mixingWeights = Inr (v, m')"
  then show "m' = m"
    by (auto simp: predictiveDistributionWithMixing_def Let_def split: sum.splits)
next
  fix v m' assume a: "predictWithFragmentation E m start stop obs = Inr (v, m')"
  show e: "m' = m\<lparr>rng := rng m'\<rparr>" by (rule predictWithFragmentation_frame[OF assms a])
  have "outstanding m' = outstanding (m\<lparr>rng := rng m'\<rparr>)" by (rule arg_cong[OF e])
  also have "\<dots> = outstanding m" by simp
  finally show "outstanding m' = outstanding m" .
qed

theorem predictive_queries_frame_witness:
  "onlyNew_contract (restaurant (zo_env coin))
   \<and> predict (zo_env coin) (zo_model []) 1 2 1 = Inr (9/16, zo_model [])
   \<and> predictBelow (zo_env coin) (zo_model []) 1 2 1 = Inr (43/64, zo_model [])
   \<and> predictiveDistribution (zo_env coin) (zo_model []) 0 2 = Inr ([21/64, 43/64], zo_model [])
   \<and> predictiveDistributionWithMixing (zo_env coin) (zo_model []) 0 2 [1/4, 1/4]
        = Inr ([51/128, 77/128], zo_model [])
   \<and> predictWithFragmentation (zo_env coin) (zo_model []) 1 2 1 = Inr (43/64, zo_model [])
   \<and> zo_model ([] :: nat list) = (zo_model [])\<lparr>rng := rng (zo_model ([] :: nat list))\<rparr>
   \<and> outstanding (zo_model ([] :: nat list)) = outstanding (zo_model ([] :: nat list))"
  using predictive_queries_frame[OF zo_onlyNew_contract, of "zo_model []" 1 2 1 "[1/4, 1/4]"]
    zo_onlyNew_contract zo_predict zo_predictBelow zo_predictiveDistribution
    zo_predictiveDistributionWithMixing zo_predictWithFragmentation
  by blast

section \<open>Losses\<close>

lemma vec_at_Inr: "vec_at v i = Inr x \<Longrightarrow> 0 \<le> i \<and> nat i < length v \<and> x = v ! nat i"
  by (auto simp: vec_at_def split: if_splits)

lemma take_snoc_eq:
  assumes "take (Suc (length L)) xs = L @ [x]"
  shows "take (length L) xs = L \<and> xs ! length L = x"
proof -
  have "take (length L) xs = take (length L) (take (Suc (length L)) xs)"
    by (simp add: min_def)
  then have a: "take (length L) xs = L" by (simp only: assms) simp
  have "xs ! length L = take (Suc (length L)) xs ! length L" by simp
  then have "xs ! length L = x" by (simp only: assms) simp
  with a show ?thesis by simp
qed

lemma computeLosses_loop_char:
  "computeLosses_loop E start stop i mi L = Inr (losses, m') \<Longrightarrow>
     length losses = length L + nat (stop - i)
     \<and> take (length L) losses = L
     \<and> losses_model E start i mi (nat (stop - i)) = Inr m'
     \<and> (\<forall>k < nat (stop - i). \<exists>mk obs p mk'.
           losses_model E start i mi k = Inr mk
           \<and> vec_at (seq mk) (i + int k) = Inr obs
           \<and> insertContextAndObservation E mk start (i + int k) obs = Inr (p, mk')
           \<and> 2 \<le> length p
           \<and> losses ! (length L + k) = - log 2 (p ! (length p - 2)))"
proof (induction E start stop i mi L rule: computeLosses_loop.induct)
  case (1 E start stop i m L)
  show ?case
  proof (cases "i < stop")
    case False
    with "1.prems" show ?thesis by simp
  next
    case True
    from "1.prems" True obtain obs where obs: "vec_at (seq m) i = Inr obs"
      by (simp split: sum.splits)
    from "1.prems" True obs obtain p m1 where ico:
      "insertContextAndObservation E m start i obs = Inr (p, m1)"
      by (simp split: sum.splits prod.splits)
    from "1.prems" True obs ico obtain prob where prob:
      "vec_at p (int (length p) - 2) = Inr prob"
      by (simp split: sum.splits)
    from "1.prems" True obs ico prob have rec:
      "computeLosses_loop E start stop (i + 1) m1 (L @ [- log 2 prob]) = Inr (losses, m')"
      by simp
    from vec_at_Inr[OF prob] have p2: "2 \<le> length p" and pv: "prob = p ! (length p - 2)"
      by (auto simp: nat_diff_distrib')
    note IH = "1.IH"[OF True obs ico refl prob rec]
    have n: "nat (stop - i) = Suc (nat (stop - (i + 1)))" using True by simp
    from IH have len: "length losses = length L + nat (stop - i)" using n by simp
    from IH have "take (Suc (length L)) losses = L @ [- log 2 prob]" by simp
    from take_snoc_eq[OF this] have tk: "take (length L) losses = L"
      and l0: "losses ! length L = - log 2 prob" by simp_all
    from IH have fin: "losses_model E start i m (nat (stop - i)) = Inr m'"
      using n obs ico by simp
    have "\<forall>k < nat (stop - i). \<exists>mk obs p mk'.
           losses_model E start i m k = Inr mk
           \<and> vec_at (seq mk) (i + int k) = Inr obs
           \<and> insertContextAndObservation E mk start (i + int k) obs = Inr (p, mk')
           \<and> 2 \<le> length p
           \<and> losses ! (length L + k) = - log 2 (p ! (length p - 2))"
    proof (intro allI impI)
      fix k assume k: "k < nat (stop - i)"
      show "\<exists>mk obs p mk'.
           losses_model E start i m k = Inr mk
           \<and> vec_at (seq mk) (i + int k) = Inr obs
           \<and> insertContextAndObservation E mk start (i + int k) obs = Inr (p, mk')
           \<and> 2 \<le> length p
           \<and> losses ! (length L + k) = - log 2 (p ! (length p - 2))"
      proof (cases k)
        case 0
        with obs ico p2 l0 pv show ?thesis by auto
      next
        case (Suc k')
        with k n have "k' < nat (stop - (i + 1))" by simp
        with IH obtain mk obs' p' mk' where
          "losses_model E start (i + 1) m1 k' = Inr mk"
          "vec_at (seq mk) (i + 1 + int k') = Inr obs'"
          "insertContextAndObservation E mk start (i + 1 + int k') obs' = Inr (p', mk')"
          "2 \<le> length p'"
          "losses ! (length (L @ [- log 2 prob]) + k') = - log 2 (p' ! (length p' - 2))"
          by blast
        with Suc obs ico show ?thesis by (auto simp: add.commute add.left_commute)
      qed
    qed
    with len tk fin show ?thesis by simp
  qed
qed


lemma updatePath_loop_frame:
  "updatePath_loop R nodes p d \<alpha> obs j w s = Inr s' \<Longrightarrow>
     a \<notin> payload ` set nodes \<Longrightarrow> fst s' a = fst s a"
proof (induction nodes arbitrary: j w s)
  case Nil
  then show ?case by simp
next
  case (Cons n rest)
  from Cons.prems(2) have na: "payload n \<noteq> a" and ra: "a \<notin> payload ` set rest" by auto
  from Cons.prems(1) show ?case
    using na Cons.IH[OF _ ra]
    by (auto split: sum.splits prod.splits if_splits)
qed

lemma updatePath_frame:
  assumes "updatePath E m pth pp d \<alpha> obs = Inr m1"
  shows "seq m1 = seq m \<and> tree m1 = tree m \<and> params m1 = params m
     \<and> numTypes m1 = numTypes m \<and> baseProb m1 = baseProb m
     \<and> (\<forall>a. a \<notin> payload ` set pth \<longrightarrow> store m1 a = store m a)"
proof -
  from assms obtain st' g' where l:
    "updatePath_loop (restaurant E) (rev pth) pp d \<alpha> obs (int (length pth) - 1) 1
       (store m, rng m) = Inr (st', g')"
    and m1: "m1 = m\<lparr>store := st', rng := g'\<rparr>"
    by (auto simp: updatePath_def split: sum.splits prod.splits)
  have "\<forall>a. a \<notin> payload ` set pth \<longrightarrow> st' a = store m a"
    using updatePath_loop_frame[OF l] by simp
  with m1 show ?thesis by simp
qed

lemma insertRoot_frame:
  assumes "insertRoot E m obs = Inr m1"
  shows "seq m1 = seq m \<and> tree m1 = tree m \<and> params m1 = params m
     \<and> numTypes m1 = numTypes m \<and> baseProb m1 = baseProb m
     \<and> (\<forall>a. a \<notin> payload ` set (findLongestSuffix (contextTree E) (tree m) (seq m) 0 0)
            \<longrightarrow> store m1 a = store m a)"
proof -
  from assms obtain pp where
    "updatePath E m (findLongestSuffix (contextTree E) (tree m) (seq m) 0 0) pp
       (getDiscounts (parameters E) (params m)
          (findLongestSuffix (contextTree E) (tree m) (seq m) 0 0))
       (getConcentrations (parameters E) (params m)
          (findLongestSuffix (contextTree E) (tree m) (seq m) 0 0)
          (getDiscounts (parameters E) (params m)
             (findLongestSuffix (contextTree E) (tree m) (seq m) 0 0))) obs = Inr m1"
    by (auto simp: insertRoot_def Let_def split: sum.splits)
  from updatePath_frame[OF this] show ?thesis .
qed

text \<open>
  Claim C6. When \<open>computeLosses(start, stop)\<close> returns, the first loss is
  \<open>log2(numTypes)\<close>; the first symbol \<open>seq[start]\<close> was seated by \<open>insertRoot\<close>, which writes
  only payloads on the path of the empty context (the root); and for each later position
  \<open>i\<close> the loss is \<open>-log2\<close> of the entry \<open>|p|-2\<close>, the second-to-last one, of the probability
  path that \<open>insertContextAndObservation(start, i, seq[i])\<close> returned in the model reached
  so far.
\<close>

theorem computeLosses_losses:
  assumes "computeLosses E m start stop = Inr (losses, m')"
  shows "length losses = 1 + nat (stop - (start + 1))
     \<and> losses ! 0 = log 2 (real_of_int (numTypes m))
     \<and> (\<exists>obs m1. vec_at (seq m) start = Inr obs \<and> insertRoot E m obs = Inr m1
          \<and> tree m1 = tree m
          \<and> (\<forall>a. a \<notin> payload ` set (findLongestSuffix (contextTree E) (tree m) (seq m) 0 0)
                 \<longrightarrow> store m1 a = store m a)
          \<and> losses_model E start (start + 1) m1 (nat (stop - (start + 1))) = Inr m'
          \<and> (\<forall>k < nat (stop - (start + 1)). \<exists>mk obs_k p mk'.
                 losses_model E start (start + 1) m1 k = Inr mk
                 \<and> vec_at (seq mk) (start + 1 + int k) = Inr obs_k
                 \<and> insertContextAndObservation E mk start (start + 1 + int k) obs_k
                      = Inr (p, mk')
                 \<and> 2 \<le> length p
                 \<and> losses ! (k + 1) = - log 2 (p ! (length p - 2))))"
proof -
  from assms obtain obs where obs: "vec_at (seq m) start = Inr obs"
    by (auto simp: computeLosses_def Let_def split: sum.splits)
  from assms obs obtain m1 where m1: "insertRoot E m obs = Inr m1"
    by (auto simp: computeLosses_def Let_def split: sum.splits)
  from assms obs m1 have loop:
    "computeLosses_loop E start stop (start + 1) m1 [log 2 (real_of_int (numTypes m))]
       = Inr (losses, m')"
    by (simp add: computeLosses_def Let_def)
  note c = computeLosses_loop_char[OF loop]
  from c have "take 1 losses = [log 2 (real_of_int (numTypes m))]" by simp
  then have l0: "losses ! 0 = log 2 (real_of_int (numTypes m))"
    by (cases losses) auto
  from c l0 obs m1 insertRoot_frame[OF m1] show ?thesis
    by (simp add: add.commute)
qed

lemmas eval_defs = computeLosses_def insertRoot_def insertContextAndObservation_def insertContext_def
  updatePath_def Let_def fresh_model_def


lemma fresh_computeLosses:
  "\<exists>m'. computeLosses (ref_env never) fresh_model 0 3
          = Inr ([log 2 2, - log 2 (5/8), - log 2 (13/16)], m')"
  by (simp add: eval_defs chain_defs)

theorem computeLosses_losses_witness:
  "\<exists>losses m'. computeLosses (ref_env never) fresh_model 0 3 = Inr (losses, m')
     \<and> losses = [log 2 2, - log 2 (5/8), - log 2 (13/16)]
     \<and> length losses = 1 + nat (3 - (0 + 1))
     \<and> losses ! 0 = log 2 (real_of_int (numTypes fresh_model))"
proof -
  from fresh_computeLosses obtain m' where
    ev: "computeLosses (ref_env never) fresh_model 0 3
          = Inr ([log 2 2, - log 2 (5/8), - log 2 (13/16)], m')"
    by blast
  from computeLosses_losses[OF ev] ev show ?thesis by blast
qed

section \<open>Joint log-probability of the seating\<close>

lemma computeLogRestaurantProb_loop_sum:
  "computeLogRestaurantProb_loop R U r gen j bp types acc =
     acc + sum_list (map (\<lambda>y. getLog U gen (getC R r y) (getT R r y)) types)
         + (if j = 0 then sum_list (map (\<lambda>y. real_of_int (getT R r y) * ln bp) types) else 0)"
  by (induction types arbitrary: acc) (simp_all add: Let_def)

lemma computeLogRestaurantProb_formula:
  assumes "computeLogRestaurantProb E U m pth d \<alpha> pd bp = Inr v"
  shows "v = restaurant_logProb (restaurant E) U (store m (payload (last pth)))
               (pd ! (length pth - 1)) (d ! (length pth - 1)) (\<alpha> ! (length pth - 1))
               (length pth = 1) bp"
proof -
  from assms have pa: "path_asserts pth d \<alpha>"
    by (auto simp: computeLogRestaurantProb_def split: if_splits)
  then have len: "length d = length pth" "length \<alpha> = length pth" "0 < length pth"
    by (auto simp: path_asserts_def)
  have j: "nat (int (length d) - 1) = length pth - 1" using len by simp
  have j': "nat (int (length pth) - 1) = length pth - 1" by simp
  show ?thesis
  proof (cases "getC_total (restaurant E) (store m (payload (last pth))) = 1")
    case True
    with assms pa show ?thesis
      by (simp add: computeLogRestaurantProb_def restaurant_logProb_def Let_def)
  next
    case False
    from assms pa False obtain gen where
      gen: "vec_at pd (int (length d) - 1) = Inr gen"
      by (auto simp: computeLogRestaurantProb_def Let_def split: sum.splits)
    then have g: "gen = pd ! (length pth - 1)"
      using j by (auto simp: vec_at_def split: if_splits)
    from assms pa False gen show ?thesis
      by (simp add: computeLogRestaurantProb_def restaurant_logProb_def Let_def
          computeLogRestaurantProb_loop_sum j j' g len)
  qed
qed

lemma computeLogJoint_loop_sum:
  "computeLogJoint_loop E U m rest tr acc = Inr w \<Longrightarrow>
     \<exists>vs. dfs_visits E m rest tr = Inr vs
        \<and> map fst vs = takeWhile (\<lambda>q. q \<noteq> []) rest
        \<and> w = acc + sum_list (map (visit_logProb E U m) vs)"
proof (induction rest arbitrary: tr acc)
  case Nil
  then show ?case by simp
next
  case (Cons pth rest)
  show ?case
  proof (cases "pth = []")
    case True
    with Cons.prems show ?thesis by simp
  next
    case False
    from Cons.prems False obtain tr' where tr': "next_traversal E m pth tr = Inr tr'"
      by (auto split: sum.splits)
    from Cons.prems False tr' obtain lp where lp:
      "computeLogRestaurantProb E U m pth (tr_discountPath tr') (tr_concentrationPath tr')
         (tr_payloadDataPath tr') (baseProb m) = Inr lp"
      by (auto split: sum.splits)
    from Cons.prems False tr' lp have rec:
      "computeLogJoint_loop E U m rest tr' (acc + lp) = Inr w" by simp
    from Cons.IH[OF rec] obtain vs where vs: "dfs_visits E m rest tr' = Inr vs"
      "map fst vs = takeWhile (\<lambda>q. q \<noteq> []) rest"
      "w = acc + lp + sum_list (map (visit_logProb E U m) vs)" by blast
    have "lp = visit_logProb E U m (pth, tr')"
      using computeLogRestaurantProb_formula[OF lp] by (simp add: visit_logProb_def)
    with vs False tr' show ?thesis by simp
  qed
qed

text \<open>
  Claim C8. \<open>computeLogJoint\<close> is the sum of \<open>computeLogRestaurantProb\<close> over the paths of
  the depth-first traversal (the first path and every later one up to the first empty
  path), one term for the last node of each path. The term of a node with total counts
  \<open>c\<close> and \<open>t\<close> is \<open>logKramp(\<alpha> + d, d, t - 1) - logKramp(\<alpha> + 1, 1, c - 1)\<close> plus the sum
  over its types of \<open>logStirling(c(y), t(y))\<close>, plus, at the root only, the sum over its
  types of \<open>t(y) log(baseProb)\<close>; a node with \<open>c = 1\<close> contributes \<open>0\<close>.
\<close>

theorem computeLogJoint_sum:
  "(computeLogJoint E U m = Inr logJoint \<longrightarrow>
      (\<exists>pth rest tr vs. getDFSPathIterator (contextTree E) (tree m) = pth # rest
          \<and> init_traversal E m pth = Inr tr
          \<and> dfs_visits E m rest tr = Inr vs
          \<and> map fst vs = takeWhile (\<lambda>q. q \<noteq> []) rest
          \<and> logJoint = sum_list (map (visit_logProb E U m) ((pth, tr) # vs))))
   \<and> (computeLogRestaurantProb E U m pth d \<alpha> pd bp = Inr v \<longrightarrow>
        v = restaurant_logProb (restaurant E) U (store m (payload (last pth)))
              (pd ! (length pth - 1)) (d ! (length pth - 1)) (\<alpha> ! (length pth - 1))
              (length pth = 1) bp)
   \<and> (getC_total R r = 1 \<longrightarrow> restaurant_logProb R U r gen d1 \<alpha>1 at_root bp1 = 0)"
proof (intro conjI impI)
  assume a: "computeLogJoint E U m = Inr logJoint"
  then obtain pth rest where it: "getDFSPathIterator (contextTree E) (tree m) = pth # rest"
    by (auto simp: computeLogJoint_def split: list.splits)
  from a it obtain tr where tr: "init_traversal E m pth = Inr tr"
    by (auto simp: computeLogJoint_def split: sum.splits)
  from a it tr obtain lp where lp:
    "computeLogRestaurantProb E U m pth (tr_discountPath tr) (tr_concentrationPath tr)
       (tr_payloadDataPath tr) (baseProb m) = Inr lp"
    by (auto simp: computeLogJoint_def split: sum.splits)
  from a it tr lp have "computeLogJoint_loop E U m rest tr (0 + lp) = Inr logJoint"
    by (simp add: computeLogJoint_def)
  from computeLogJoint_loop_sum[OF this] obtain vs where vs:
    "dfs_visits E m rest tr = Inr vs" "map fst vs = takeWhile (\<lambda>q. q \<noteq> []) rest"
    "logJoint = 0 + lp + sum_list (map (visit_logProb E U m) vs)" by blast
  have "lp = visit_logProb E U m (pth, tr)"
    using computeLogRestaurantProb_formula[OF lp] by (simp add: visit_logProb_def)
  with it tr vs
  show "\<exists>pth rest tr vs. getDFSPathIterator (contextTree E) (tree m) = pth # rest
          \<and> init_traversal E m pth = Inr tr
          \<and> dfs_visits E m rest tr = Inr vs
          \<and> map fst vs = takeWhile (\<lambda>q. q \<noteq> []) rest
          \<and> logJoint = sum_list (map (visit_logProb E U m) ((pth, tr) # vs))"
    by simp
next
  assume "computeLogRestaurantProb E U m pth d \<alpha> pd bp = Inr v"
  from computeLogRestaurantProb_formula[OF this]
  show "v = restaurant_logProb (restaurant E) U (store m (payload (last pth)))
              (pd ! (length pth - 1)) (d ! (length pth - 1)) (\<alpha> ! (length pth - 1))
              (length pth = 1) bp" .
next
  assume "getC_total R r = 1"
  then show "restaurant_logProb R U r gen d1 \<alpha>1 at_root bp1 = 0"
    by (simp add: restaurant_logProb_def)
qed

lemmas lj_defs = computeLogJoint_def init_traversal_def next_traversal_def computeLogRestaurantProb_def
  path_asserts_def makeAdditionalDataPtr_def pop_back_def ref_utils_def Let_def


lemma ref_computeLogJoint:
  "computeLogJoint (ref_env coin) ref_utils (ref_model []) = Inr (- ln 2 + ln (1/2))"
  by (simp add: lj_defs chain_defs numeral_2_eq_2)

theorem computeLogJoint_sum_witness:
  "computeLogJoint (ref_env coin) ref_utils (ref_model []) = Inr (- ln 2 + ln (1/2))
   \<and> (\<exists>pth rest tr vs.
          getDFSPathIterator (contextTree (ref_env coin)) (tree (ref_model ([] :: nat list)))
            = pth # rest
          \<and> init_traversal (ref_env coin) (ref_model []) pth = Inr tr
          \<and> dfs_visits (ref_env coin) (ref_model []) rest tr = Inr vs
          \<and> map fst vs = takeWhile (\<lambda>q. q \<noteq> []) rest
          \<and> - ln 2 + ln (1/2)
               = sum_list (map (visit_logProb (ref_env coin) ref_utils (ref_model []))
                             ((pth, tr) # vs)))"
  using computeLogJoint_sum[of "ref_env coin" ref_utils "ref_model []" "- ln 2 + ln (1/2)" "[]" "[]" "[]" "[]" 0 0
          "restaurant (ref_env coin)" "\<lambda>y. (0, 0)" "()" 0 0 False 0]
    ref_computeLogJoint
  by blast

section \<open>Insertion followed by removal\<close>

lemma fun_upd_fold: "(\<lambda>a. if a = p then x else f a) = f(p := x)"
  by (simp add: fun_upd_def)

lemma removeObservationFromPath_loop_upd:
  "removeObservationFromPath_loop R ns sz d y pd j w (st, g) = Inr (st', g2) \<Longrightarrow>
   p \<notin> payload ` set ns \<Longrightarrow>
   removeObservationFromPath_loop R ns sz d y pd j w (st(p := x), g) = Inr (st'(p := x), g2)"
proof (induction ns arbitrary: j w st g)
  case Nil
  then show ?case by simp
next
  case (Cons n rest)
  from Cons.prems(2) have np: "payload n \<noteq> p" and rp: "p \<notin> payload ` set rest" by auto
  have tw: "\<And>r'. (st(p := x))(payload n := r') = (st(payload n := r'))(p := x)"
    using np by (simp add: fun_upd_twist)
  from Cons.prems(1) show ?case
    using np Cons.IH[OF _ rp]
    by (auto simp: tw fun_upd_fold split: sum.splits prod.splits if_splits)
qed

lemma round_trip_loops:
  assumes "distinct (map payload ns)"
    and "\<forall>n \<in> set ns. remove_undoes_add R (st (payload n)) y"
    and "updatePath_loop R ns pp d \<alpha> y j w (st, g) = Inr (st1, g1)"
    and "j = int (length ns) - 1" and "int (length ns) \<le> sz"
  shows "\<exists>g2. removeObservationFromPath_loop R ns sz d y pd j w (st1, g') = Inr (st, g2)"
  using assms
proof (induction ns arbitrary: j w st g g')
  case Nil
  then show ?case by simp
next
  case (Cons n rest)
  let ?pl = "payload n"
  from Cons.prems(3) obtain p0 d0 a0 where ix:
    "vec_at pp j = Inr p0" "vec_at d j = Inr d0" "vec_at \<alpha> j = Inr a0"
    by (auto split: sum.splits)
  obtain w' r' ga where add: "addCustomer R (st ?pl) y p0 d0 a0 None w g = (w', r', ga)"
    by (cases "addCustomer R (st ?pl) y p0 d0 a0 None w g") auto
  have j: "0 \<le> j" "j < sz" using Cons.prems(4,5) by auto
  define extra where "extra = (if int (length pd) = sz then Some (pd ! nat j) else None)"
  have pdl: "(if int (length pd) = sz
            then (case vec_at pd j of Inl e \<Rightarrow> Inl e | Inr x \<Rightarrow> Inr (Some x))
            else Inr None) = Inr extra"
    using j by (auto simp: extra_def vec_at_def)
  from Cons.prems(2) have undo: "remove_undoes_add R (st ?pl) y" by simp
  have rem: "\<exists>gr. removeCustomer R r' y d0 extra w g'' = (w', st ?pl, gr)" for g''
  proof -
    from undo have
      "fst (removeCustomer R (fst (snd (addCustomer R (st ?pl) y p0 d0 a0 None w g))) y d0
              extra w g'') = fst (addCustomer R (st ?pl) y p0 d0 a0 None w g)
       \<and> fst (snd (removeCustomer R (fst (snd (addCustomer R (st ?pl) y p0 d0 a0 None w g)))
                      y d0 extra w g'')) = st ?pl"
      unfolding remove_undoes_add_def by blast
    then have "fst (removeCustomer R r' y d0 extra w g'') = w'"
      "fst (snd (removeCustomer R r' y d0 extra w g'')) = st ?pl"
      by (simp_all add: add)
    then show ?thesis by (cases "removeCustomer R r' y d0 extra w g''") auto
  qed
  from rem[of g'] obtain gr where gr: "removeCustomer R r' y d0 extra w g' = (w', st ?pl, gr)"
    by blast
  from Cons.prems(1) have nr: "?pl \<notin> payload ` set rest" and dr: "distinct (map payload rest)"
    by auto
  show ?case
  proof (cases "w' = 0")
    case True
    with Cons.prems(3) ix add have "st1 = st(?pl := r')" by (simp add: fun_upd_fold)
    then show ?thesis
      using True ix pdl gr by (simp add: fun_upd_fold)
  next
    case False
    with Cons.prems(3) ix add have rec:
      "updatePath_loop R rest pp d \<alpha> y (j - 1) w' (st(?pl := r'), ga) = Inr (st1, g1)"
      by (simp add: fun_upd_fold)
    from updatePath_loop_frame[OF rec nr] have s1: "st1 ?pl = r'" by simp
    have u: "\<forall>k \<in> set rest. remove_undoes_add R ((st(?pl := r')) (payload k)) y"
    proof
      fix k assume k: "k \<in> set rest"
      then have "payload k \<noteq> ?pl" using nr by (metis imageI)
      then show "remove_undoes_add R ((st(?pl := r')) (payload k)) y"
        using Cons.prems(2) k by simp
    qed
    have jr: "j - 1 = int (length rest) - 1" "int (length rest) \<le> sz"
      using Cons.prems(4,5) by simp_all
    from Cons.IH[where st = "st(?pl := r')" and g' = gr, OF dr u rec jr]
    obtain g2 where g2:
      "removeObservationFromPath_loop R rest sz d y pd (j - 1) w' (st1, gr)
         = Inr (st(?pl := r'), g2)"
      by blast
    have "removeObservationFromPath_loop R (n # rest) sz d y pd j w (st1, g')
        = removeObservationFromPath_loop R rest sz d y pd (j - 1) w' (st1(?pl := st ?pl), gr)"
      using False ix pdl gr s1 by (simp add: fun_upd_fold)
    also have "\<dots> = Inr ((st(?pl := r'))(?pl := st ?pl), g2)"
      by (rule removeObservationFromPath_loop_upd[OF g2 nr])
    finally show ?thesis by simp
  qed
qed

text \<open>
  Claim C3, as amended. \<open>insertObservation\<close> followed by \<open>removeObservation\<close> on the same
  cached path, for the same type, restores every payload (hence every count \<open>c\<close> and \<open>t\<close>)
  provided that the payloads of the path are distinct and that at every node of the
  path \<open>removeCustomer\<close> undoes \<open>addCustomer\<close>: then the removal walk climbs exactly as far
  as the insertion walk did, and only the random source may differ afterwards.
\<close>

theorem insert_remove_round_trip:
  assumes "distinct (map payload cp)"
    and "\<forall>n \<in> set cp. remove_undoes_add (restaurant E) (store m (payload n)) y"
    and "cp \<noteq> []"
    and "insertObservation E m start stop y (Some cp) = Inr (prob_path, m1)"
  shows "\<exists>m2. removeObservation E m1 start stop y payloadDataPath (Some cp) = Inr m2
           \<and> store m2 = store m \<and> m2 = m\<lparr>rng := rng m2\<rparr>
           \<and> insertThenRemove E m start stop y payloadDataPath (Some cp) = Inr m2"
proof -
  let ?d = "getDiscounts (parameters E) (params m) cp"
  let ?a = "getConcentrations (parameters E) (params m) cp ?d"
  from assms(4) obtain st1 g1 where
    up: "updatePath_loop (restaurant E) (rev cp) prob_path ?d ?a y (int (length cp) - 1) 1
           (store m, rng m) = Inr (st1, g1)"
    and m1: "m1 = m\<lparr>store := st1, rng := g1\<rparr>"
    by (auto simp: insertObservation_def updatePath_def Let_def split: sum.splits prod.splits)
  have d: "distinct (map payload (rev cp))" using assms(1) by (simp add: rev_map[symmetric])
  have u: "\<forall>n \<in> set (rev cp). remove_undoes_add (restaurant E) (store m (payload n)) y"
    using assms(2) by simp
  from round_trip_loops[OF d u up, of "int (length cp)" payloadDataPath g1]
  obtain g2 where g2:
    "removeObservationFromPath_loop (restaurant E) (rev cp) (int (length cp)) ?d y
       payloadDataPath (int (length cp) - 1) 1 (st1, g1) = Inr (store m, g2)"
    by auto
  have r: "removeObservation E m1 start stop y payloadDataPath (Some cp) = Inr (m\<lparr>rng := g2\<rparr>)"
    using assms(3) g2 m1
    by (simp add: removeObservation_def vec_back_def removeObservationFromPath_def Let_def)
  then show ?thesis using assms(4) by (simp add: insertThenRemove_def)
qed


lemmas io_defs = insertThenRemove_def insertObservation_def removeObservation_def
  removeObservationFromPath_def updatePath_def busy_model_def busy_store_def Let_def

text \<open>
  The round trip of claim C3 does not restore the counts in general. Root and child hold
  two customers of type 0 at one table each. The inserted customer opens a second table
  at the child and joins the table at the root; the removal then takes a customer from
  the child without closing a table, so it never reaches the root: afterwards the child
  has two tables instead of one and the root three customers instead of two.
\<close>

theorem insert_remove_round_trip_counterexample:
  "map_sum id (\<lambda>m2. (store m2 1 0, store m2 0 0))
     (insertThenRemove (ref_env coin) (busy_model [1, 0, 0]) 0 1 0 [] (Some (chain 1)))
     = Inr ((2, 2), (3, 1))
   \<and> (store (busy_model [1, 0, 0 :: nat]) 1 0, store (busy_model [1, 0, 0 :: nat]) 0 0)
       = ((2, 1), (2, 1))"
  by (simp add: io_defs chain_defs)

lemma ref_undo:
  "remove_undoes_add (restaurant (ref_env never)) (store (ref_model ()) 0) 1"
  "remove_undoes_add (restaurant (ref_env never)) (store (ref_model ()) 1) 1"
  by (simp_all add: remove_undoes_add_def chain_defs fun_eq_iff)

lemma ref_insert:
  "\<exists>pp m1. insertObservation (ref_env never) (ref_model ()) 0 1 1 (Some (chain 1)) = Inr (pp, m1)
      \<and> store m1 1 1 = (1, 1) \<and> store m1 0 1 = (1, 1)"
  by (simp add: io_defs chain_defs)

theorem insert_remove_round_trip_witness:
  "distinct (map payload (chain 1))
   \<and> remove_undoes_add (restaurant (ref_env never)) (store (ref_model ()) 0) 1
   \<and> remove_undoes_add (restaurant (ref_env never)) (store (ref_model ()) 1) 1
   \<and> chain 1 \<noteq> []
   \<and> (\<exists>pp m1 m2. insertObservation (ref_env never) (ref_model ()) 0 1 1 (Some (chain 1))
                     = Inr (pp, m1)
         \<and> store m1 1 1 = (1, 1) \<and> store m1 0 1 = (1, 1)
         \<and> removeObservation (ref_env never) m1 0 1 1 [] (Some (chain 1)) = Inr m2
         \<and> store m2 = store (ref_model ())
         \<and> insertThenRemove (ref_env never) (ref_model ()) 0 1 1 [] (Some (chain 1)) = Inr m2)"
proof -
  have d: "distinct (map payload (chain 1))" by (simp add: chain_def chain_node_def)
  have u: "\<forall>n \<in> set (chain 1).
             remove_undoes_add (restaurant (ref_env never)) (store (ref_model ()) (payload n)) 1"
    using ref_undo by (simp add: chain_def chain_node_def)
  have ne: "chain 1 \<noteq> []" by (simp add: chain_def)
  from ref_insert obtain pp m1 where i:
    "insertObservation (ref_env never) (ref_model ()) 0 1 1 (Some (chain 1)) = Inr (pp, m1)"
    "store m1 1 1 = (1, 1)" "store m1 0 1 = (1, 1)" by blast
  from insert_remove_round_trip[OF d u ne i(1), of "[]"] i d ne ref_undo show ?thesis by blast
qed

section \<open>Direct Gibbs resampling of a table count\<close>

lemma foldl_upd_length:
  "length (foldl (\<lambda>l tw. if c tw then l[g tw := h tw] else l) l tws) = length l"
  by (induction tws arbitrary: l) auto

lemma foldl_upd_other:
  "k \<notin> g ` set tws \<Longrightarrow>
   foldl (\<lambda>l tw. if c tw then l[g tw := h tw] else l) l tws ! k = l ! k"
  by (induction tws arbitrary: l) auto

lemma foldl_upd_nth:
  "tw \<in> set tws \<Longrightarrow> distinct (map g tws) \<Longrightarrow> g tw < length l \<Longrightarrow>
   foldl (\<lambda>l tw. if c tw then l[g tw := h tw] else l) l tws ! g tw
     = (if c tw then h tw else l ! g tw)"
proof (induction tws arbitrary: l)
  case Nil
  then show ?case by simp
next
  case (Cons a tws)
  show ?case
  proof (cases "tw = a")
    case True
    with Cons.prems have "g a \<notin> g ` set tws" by auto
    then show ?thesis using True Cons.prems(3) by (simp add: foldl_upd_other)
  next
    case False
    let ?F = "\<lambda>l tw. if c tw then l[g tw := h tw] else l"
    from Cons.prems False have m: "tw \<in> set tws" by simp
    from Cons.prems have dt: "distinct (map g tws)" and na: "g a \<notin> g ` set tws" by simp_all
    from m na have ne: "g tw \<noteq> g a" by (metis imageI)
    have len: "g tw < length (?F l a)" using Cons.prems(3) by simp
    have "foldl ?F l (a # tws) ! g tw = foldl ?F (?F l a) tws ! g tw" by simp
    also have "\<dots> = (if c tw then h tw else ?F l a ! g tw)" by (rule Cons.IH[OF m dt len])
    also have "?F l a ! g tw = l ! g tw" using ne by simp
    finally show ?thesis .
  qed
qed

lemmas foldl_set_length = foldl_upd_length[where c = "\<lambda>tw. True", simplified]
lemmas foldl_set_nth = foldl_upd_nth[where c = "\<lambda>tw. True", simplified]

lemma fill_with_parent_foldl:
  "fill_with_parent U a d ap gc gp cw ct ot pc pt po tws (l1, l2, l3, l4) =
     (foldl (\<lambda>l tw. if \<not> pc - ct + tw < pt
                     then l[nat (tw - 1) := Fin (logKramp U (a + d) d (ot + tw - 1))] else l) l1 tws,
      foldl (\<lambda>l tw. if \<not> pc - ct + tw < pt
                     then l[nat (tw - 1) := Fin (- logKramp U (ap + 1) 1 (po + tw - 1))] else l) l2 tws,
      foldl (\<lambda>l tw. if \<not> pc - ct + tw < pt
                     then l[nat (tw - 1) := Fin (getLog U gc cw tw)] else l) l3 tws,
      foldl (\<lambda>l tw. l[nat (tw - 1) := (if pc - ct + tw < pt then MInf
                                             else Fin (getLog U gp (pc - ct + tw) pt))]) l4 tws)"
  by (induction tws arbitrary: l1 l2 l3 l4) (simp_all add: Let_def)

lemma fill_at_root_foldl:
  "fill_at_root U a d gc cw ot bp tws (l1, l2, l3, l4) =
     (foldl (\<lambda>l tw. l[nat (tw - 1) := Fin (logKramp U (a + d) d (ot + tw - 1))]) l1 tws,
      foldl (\<lambda>l tw. l[nat (tw - 1) := Fin (getLog U gc cw tw)]) l2 tws,
      foldl (\<lambda>l tw. l[nat (tw - 1) := Fin (real_of_int tw * ln bp)]) l3 tws,
      l4)"
  by (induction tws arbitrary: l1 l2 l3 l4) (simp_all add: Let_def)

lemma distinct_candidates: "distinct (map (\<lambda>tw. nat (tw - 1)) [1 .. cw])"
  by (auto simp: distinct_map inj_on_def)


lemma candidate_in: "1 \<le> tw \<Longrightarrow> tw \<le> cw \<Longrightarrow> tw \<in> set [1 .. cw] \<and> nat (tw - 1) < nat cw"
  by auto

lemma fill_with_parent_entries:
  assumes "fill_with_parent U a d ap gc gp cw ct ot pc pt po [1 .. cw]
             (replicate (nat cw) (Fin 0), replicate (nat cw) (Fin 0),
              replicate (nat cw) (Fin 0), replicate (nat cw) (Fin 0)) = (l1, l2, l3, l4)"
  shows "length l1 = nat cw \<and> length l2 = nat cw \<and> length l3 = nat cw \<and> length l4 = nat cw"
    and "1 \<le> tw \<Longrightarrow> tw \<le> cw \<Longrightarrow>
         xadd (xadd (xadd (l1 ! nat (tw - 1)) (l2 ! nat (tw - 1))) (l3 ! nat (tw - 1)))
              (l4 ! nat (tw - 1))
           = (if pc - ct + tw < pt then MInf
              else Fin (logKramp U (a + d) d (ot + tw - 1) - logKramp U (ap + 1) 1 (po + tw - 1)
                        + getLog U gc cw tw + getLog U gp (pc - ct + tw) pt))"
proof -
  note eqs = assms[unfolded fill_with_parent_foldl prod.inject]
  show "length l1 = nat cw \<and> length l2 = nat cw \<and> length l3 = nat cw \<and> length l4 = nat cw"
    using eqs by (auto simp: foldl_upd_length foldl_set_length)
  assume tw: "1 \<le> tw" "tw \<le> cw"
  note c = candidate_in[OF tw]
  have n: "nat (tw - 1) < length (replicate (nat cw) (Fin 0 :: xreal))" using c by simp
  note e = foldl_upd_nth[where g = "\<lambda>tw. nat (tw - 1)", OF conjunct1[OF c] distinct_candidates n]
  note e' = foldl_set_nth[where g = "\<lambda>tw. nat (tw - 1)", OF conjunct1[OF c] distinct_candidates n]
  have z: "replicate (nat cw) (Fin 0 :: xreal) ! nat (tw - 1) = Fin 0" using c by simp
  have "l1 ! nat (tw - 1) = (if \<not> pc - ct + tw < pt
                             then Fin (logKramp U (a + d) d (ot + tw - 1)) else Fin 0)"
    unfolding eqs[THEN conjunct1, symmetric] by (subst e) (simp only: z)
  moreover have "l2 ! nat (tw - 1) = (if \<not> pc - ct + tw < pt
                             then Fin (- logKramp U (ap + 1) 1 (po + tw - 1)) else Fin 0)"
    unfolding eqs[THEN conjunct2, THEN conjunct1, symmetric] by (subst e) (simp only: z)
  moreover have "l3 ! nat (tw - 1) = (if \<not> pc - ct + tw < pt
                             then Fin (getLog U gc cw tw) else Fin 0)"
    unfolding eqs[THEN conjunct2, THEN conjunct2, THEN conjunct1, symmetric]
    by (subst e) (simp only: z)
  moreover have "l4 ! nat (tw - 1) = (if pc - ct + tw < pt then MInf
                                      else Fin (getLog U gp (pc - ct + tw) pt))"
    unfolding eqs[THEN conjunct2, THEN conjunct2, THEN conjunct2, symmetric]
    by (subst e') simp
  ultimately show "xadd (xadd (xadd (l1 ! nat (tw - 1)) (l2 ! nat (tw - 1))) (l3 ! nat (tw - 1)))
              (l4 ! nat (tw - 1))
           = (if pc - ct + tw < pt then MInf
              else Fin (logKramp U (a + d) d (ot + tw - 1) - logKramp U (ap + 1) 1 (po + tw - 1)
                        + getLog U gc cw tw + getLog U gp (pc - ct + tw) pt))"
    by simp
qed


lemma fill_at_root_entries:
  assumes "fill_at_root U a d gc cw ot bp [1 .. cw]
             (replicate (nat cw) (Fin 0), replicate (nat cw) (Fin 0),
              replicate (nat cw) (Fin 0), replicate (nat cw) (Fin 0)) = (l1, l2, l3, l4)"
  shows "length l1 = nat cw \<and> length l2 = nat cw \<and> length l3 = nat cw \<and> length l4 = nat cw"
    and "1 \<le> tw \<Longrightarrow> tw \<le> cw \<Longrightarrow>
         xadd (xadd (xadd (l1 ! nat (tw - 1)) (l2 ! nat (tw - 1))) (l3 ! nat (tw - 1)))
              (l4 ! nat (tw - 1))
           = Fin (logKramp U (a + d) d (ot + tw - 1) + getLog U gc cw tw
                  + real_of_int tw * ln bp)"
proof -
  note eqs = assms[unfolded fill_at_root_foldl prod.inject]
  show "length l1 = nat cw \<and> length l2 = nat cw \<and> length l3 = nat cw \<and> length l4 = nat cw"
    using eqs by (auto simp: foldl_set_length)
  assume tw: "1 \<le> tw" "tw \<le> cw"
  note c = candidate_in[OF tw]
  have n: "nat (tw - 1) < length (replicate (nat cw) (Fin 0 :: xreal))" using c by simp
  note e' = foldl_set_nth[where g = "\<lambda>tw. nat (tw - 1)", OF conjunct1[OF c] distinct_candidates n]
  have "l1 ! nat (tw - 1) = Fin (logKramp U (a + d) d (ot + tw - 1))"
    unfolding eqs[THEN conjunct1, symmetric] by (subst e') simp
  moreover have "l2 ! nat (tw - 1) = Fin (getLog U gc cw tw)"
    unfolding eqs[THEN conjunct2, THEN conjunct1, symmetric] by (subst e') simp
  moreover have "l3 ! nat (tw - 1) = Fin (real_of_int tw * ln bp)"
    unfolding eqs[THEN conjunct2, THEN conjunct2, THEN conjunct1, symmetric] by (subst e') simp
  moreover have "l4 ! nat (tw - 1) = Fin 0"
    unfolding eqs[THEN conjunct2, THEN conjunct2, THEN conjunct2, symmetric] using c by simp
  ultimately show "xadd (xadd (xadd (l1 ! nat (tw - 1)) (l2 ! nat (tw - 1))) (l3 ! nat (tw - 1)))
              (l4 ! nat (tw - 1))
           = Fin (logKramp U (a + d) d (ot + tw - 1) + getLog U gc cw tw
                  + real_of_int tw * ln bp)"
    by simp
qed

lemma directGibbs_logProbs_entries:
  assumes "0 \<le> j" and "j < int (length payloadDataPath)"
  shows "\<exists>l1 l2 l3 l4.
     directGibbs_logProbs R U st pth discountPath concentrationPath payloadDataPath bp y j
       = Inr (l1, l2, l3, l4)
     \<and> length l1 = nat (getC R (st (payload (pth ! nat j))) y)
     \<and> length l2 = nat (getC R (st (payload (pth ! nat j))) y)
     \<and> length l3 = nat (getC R (st (payload (pth ! nat j))) y)
     \<and> length l4 = nat (getC R (st (payload (pth ! nat j))) y)
     \<and> (\<forall>tw. 1 \<le> tw \<and> tw \<le> getC R (st (payload (pth ! nat j))) y \<longrightarrow>
           xadd (xadd (xadd (l1 ! nat (tw - 1)) (l2 ! nat (tw - 1))) (l3 ! nat (tw - 1)))
                (l4 ! nat (tw - 1))
             = logWeight R U st pth discountPath concentrationPath payloadDataPath bp y j tw)"
proof (cases "0 < j")
  case True
  let ?cw = "getC R (st (payload (pth ! nat j))) y"
  let ?z = "replicate (nat ?cw) (Fin 0 :: xreal)"
  let ?t = "getT R (st (payload (pth ! nat j))) y"
  let ?P = "st (payload (pth ! nat (j - 1)))"
  let ?fill = "fill_with_parent U (concentrationPath ! nat j) (discountPath ! nat j)
                 (concentrationPath ! nat (j - 1)) (payloadDataPath ! nat j)
                 (payloadDataPath ! nat (j - 1)) ?cw ?t
                 (getT_total R (st (payload (pth ! nat j))) - ?t) (getC R ?P y) (getT R ?P y)
                 (getC_total R ?P - ?t) [1 .. ?cw] (?z, ?z, ?z, ?z)"
  obtain l1 l2 l3 l4 where f: "?fill = (l1, l2, l3, l4)" by (cases ?fill) auto
  have "directGibbs_logProbs R U st pth discountPath concentrationPath payloadDataPath bp y j
          = Inr ?fill"
    using True assms by (simp add: directGibbs_logProbs_def vec_at_def Let_def del: upto.simps)
  then show ?thesis
    using True f fill_with_parent_entries[OF f]
    by (simp add: logWeight_def Let_def del: upto.simps)
next
  case False
  let ?cw = "getC R (st (payload (pth ! nat j))) y"
  let ?z = "replicate (nat ?cw) (Fin 0 :: xreal)"
  let ?t = "getT R (st (payload (pth ! nat j))) y"
  let ?fill = "fill_at_root U (concentrationPath ! nat j) (discountPath ! nat j)
                 (payloadDataPath ! nat j) ?cw
                 (getT_total R (st (payload (pth ! nat j))) - ?t) bp [1 .. ?cw] (?z, ?z, ?z, ?z)"
  obtain l1 l2 l3 l4 where f: "?fill = (l1, l2, l3, l4)" by (cases ?fill) auto
  have "directGibbs_logProbs R U st pth discountPath concentrationPath payloadDataPath bp y j
          = Inr ?fill"
    using False assms by (simp add: directGibbs_logProbs_def vec_at_def Let_def del: upto.simps)
  then show ?thesis
    using False f fill_at_root_entries[OF f]
    by (simp add: logWeight_def Let_def del: upto.simps)
qed


text \<open>
  What one round of the loop does, for every node \<open>j\<close> of the path whose additional data
  are there and whose payload is not its parent's: the four vectors hold at the entry
  of each candidate \<open>tw\<close> in \<open>[1, cw]\<close> addends whose sum is the log-weight of the
  specification; each vector is max-subtracted, the four are summed, the sum is
  max-subtracted and exponentiated; the sampled \<open>tw' = i + 1\<close> replaces \<open>t(node, y)\<close> and,
  below the root, \<open>c(P, y)\<close> becomes \<open>newParentCw\<close> unless the assertion on it fails; the
  round leaves \<open>goUp\<close> false, and \<open>j - 1\<close> exactly when \<open>tw'\<close> differs from the old count.
\<close>

lemma directGibbs_round_logWeights:
  assumes "0 \<le> j" and "j < int (length payloadDataPath)"
    and "0 < j \<longrightarrow> payload (pth ! nat (j - 1)) \<noteq> payload (pth ! nat j)"
  shows "\<exists>l1 l2 l3 l4.
     directGibbs_logProbs R U st pth discountPath concentrationPath payloadDataPath bp y j
       = Inr (l1, l2, l3, l4)
     \<and> (\<forall>tw. 1 \<le> tw \<and> tw \<le> getC R (st (payload (pth ! nat j))) y \<longrightarrow>
           xadd (xadd (xadd (l1 ! nat (tw - 1)) (l2 ! nat (tw - 1))) (l3 ! nat (tw - 1)))
                (l4 ! nat (tw - 1))
             = logWeight R U st pth discountPath concentrationPath payloadDataPath bp y j tw)
     \<and> (\<forall>g i g'.
           sample_unnormalized_pdf U
             (exp_vec U (subMax_vec U
                (add_vec U (add_vec U (add_vec U (add_vec U
                   (replicate (nat (getC R (st (payload (pth ! nat j))) y)) (Fin 0))
                   (subMax_vec U l1)) (subMax_vec U l2)) (subMax_vec U l3)) (subMax_vec U l4))))
             0 g = (i, g') \<longrightarrow>
           directGibbs_round R U pth discountPath concentrationPath payloadDataPath bp y j (st, g)
             = (if 0 < j \<and> getC R (st (payload (pth ! nat (j - 1)))) y
                             - getT R (st (payload (pth ! nat j))) y + (i + 1)
                           < getT R (st (payload (pth ! nat (j - 1)))) y
                then Inl AssertionFailed
                else Inr (False,
                          if i + 1 \<noteq> getT R (st (payload (pth ! nat j))) y then j - 1 else j,
                          resampled R st pth y j (i + 1), g')))"
proof -
  from directGibbs_logProbs_entries[OF assms(1,2)] obtain l1 l2 l3 l4 where
    lp: "directGibbs_logProbs R U st pth discountPath concentrationPath payloadDataPath bp y j
           = Inr (l1, l2, l3, l4)"
    and w: "\<forall>tw. 1 \<le> tw \<and> tw \<le> getC R (st (payload (pth ! nat j))) y \<longrightarrow>
           xadd (xadd (xadd (l1 ! nat (tw - 1)) (l2 ! nat (tw - 1))) (l3 ! nat (tw - 1)))
                (l4 ! nat (tw - 1))
             = logWeight R U st pth discountPath concentrationPath payloadDataPath bp y j tw"
    by blast
  show ?thesis
    apply (rule exI[of _ l1], rule exI[of _ l2], rule exI[of _ l3], rule exI[of _ l4])
    apply (intro conjI allI impI)
      apply (rule lp)
     apply (rule w[rule_format], assumption)
    using assms(3)
    apply (simp add: directGibbs_round_def lp combine_logProbs_def directGibbs_write_def
        resampled_def Let_def fun_upd_fold)
    done
qed

lemma directGibbs_while_once:
  "directGibbs_while R U pth discountPath concentrationPath payloadDataPath bp y True j s
   = (if j = - 1 then Inr s
      else map_sum id (\<lambda>r. snd (snd r))
             (directGibbs_round R U pth discountPath concentrationPath payloadDataPath bp y
                j s))"
proof (cases "j = - 1")
  case True
  then show ?thesis by (simp add: directGibbs_while.simps)
next
  case False
  show ?thesis
  proof (cases "directGibbs_round R U pth discountPath concentrationPath payloadDataPath bp y
                  j s")
    case (Inl e)
    with False show ?thesis by (simp add: directGibbs_while.simps)
  next
    case (Inr r)
    obtain goUp' j' s' where r: "r = (goUp', j', s')" by (cases r) auto
    from Inr r have "\<not> goUp'"
      by (auto simp: directGibbs_round_def Let_def split: sum.splits prod.splits if_splits)
    with False Inr r show ?thesis
      by (simp add: directGibbs_while.simps[of _ _ _ _ _ _ _ _ True]
          directGibbs_while.simps[of _ _ _ _ _ _ _ _ False])
  qed
qed

lemmas dg_defs = directGibbsSamplePath_def directGibbs_round_def directGibbs_logProbs_def
  directGibbs_write_def combine_logProbs_def path_asserts_def busy_model_def busy_store_def
  new_HPYPModel_def ref_env_def vec_at_def ref_utils_def first_positive_def chain_def
  chain_node_def crp_restaurant_def crp_c_def crp_t_def crp_types_def Let_def

lemma busy_directGibbsSamplePath:
  "map_sum id (\<lambda>m'. (store m' 0 0, store m' 1 0, rng m'))
     (directGibbsSamplePath (ref_env coin) ref_utils (busy_model [1, 1]) (chain 1)
        [1/2, 1/2] [1, 1] [(), ()] (1/2))
   = Inr ((3, 1), (2, 2), [1])"
  by (simp add: dg_defs directGibbs_while_once upto.simps eval_nat_numeral)

lemma busy_resample_walk:
  "map_sum id (\<lambda>s'. (fst s' 0 0, fst s' 1 0, snd s'))
     (resample_walk (crp_restaurant coin 2) ref_utils (chain 1) [1/2, 1/2] [1, 1] [(), ()]
        (1/2) 0 1 (busy_store, [1, 1]))
   = Inr ((3, 2), (2, 2), [])"
  by (simp add: dg_defs resample_walk.simps upto.simps eval_nat_numeral)

text \<open>
  Claim C5, the upward walk. The \<^verbatim>\<open>while\<close> loop of \<open>directGibbsSamplePath\<close> ends after one
  round, whatever the round has sampled: \<open>goUp\<close> is false from the first statement of
  the round on. On the chain of two nodes with two customers at one table in each, with
  a sampler that draws the second candidate twice, the child is given two tables and
  the root its third customer, and the code stops there with one draw left and the root
  at one table; the walk of the specification goes on to the root, which differs from
  the child's old count, and gives it two tables. The triples are \<open>(c, t)\<close> of type 0 at
  the root, at the child, and the draws that are left.
\<close>

theorem directGibbs_loop_runs_once:
  "directGibbs_while R U pth discountPath concentrationPath payloadDataPath bp y True j s
   = (if j = - 1 then Inr s
      else map_sum id (\<lambda>r. snd (snd r))
             (directGibbs_round R U pth discountPath concentrationPath payloadDataPath bp y
                j s))
   \<and> map_sum id (\<lambda>m'. (store m' 0 0, store m' 1 0, rng m'))
        (directGibbsSamplePath (ref_env coin) ref_utils (busy_model [1, 1]) (chain 1)
           [1/2, 1/2] [1, 1] [(), ()] (1/2))
      = Inr ((3, 1), (2, 2), [1])
   \<and> map_sum id (\<lambda>s'. (fst s' 0 0, fst s' 1 0, snd s'))
        (resample_walk (crp_restaurant coin 2) ref_utils (chain 1) [1/2, 1/2] [1, 1] [(), ()]
           (1/2) 0 1 (busy_store, [1, 1]))
      = Inr ((3, 2), (2, 2), [])"
  using directGibbs_while_once[of R U pth discountPath concentrationPath payloadDataPath bp y j s]
    busy_directGibbsSamplePath busy_resample_walk
  by blast

section \<open>The Gibbs sweep and the invariants of the seating\<close>

lemma sum_list_map_upd:
  "distinct xs \<Longrightarrow> \<forall>x \<in> set xs. x \<noteq> N \<longrightarrow> f' x = f x \<Longrightarrow> f' N = f N + d \<Longrightarrow>
   sum_list (map f' xs) = sum_list (map f xs) + (if N \<in> set xs then d else (0::int))"
  by (induction xs) auto

lemma member_le_sum_list_int:
  "N \<in> set xs \<Longrightarrow> \<forall>x \<in> set xs. (0::int) \<le> f x \<Longrightarrow> f N \<le> sum_list (map f xs)"
proof (induction xs)
  case Nil
  then show ?case by simp
next
  case (Cons a xs)
  have nn: "0 \<le> sum_list (map f xs)"
    by (rule sum_list_nonneg) (use Cons.prems(2) in auto)
  show ?case
  proof (cases "N = a")
    case True
    then show ?thesis using nn by simp
  next
    case False
    with Cons have "f N \<le> sum_list (map f xs)" by simp
    moreover have "0 \<le> f a" using Cons.prems(2) by simp
    ultimately show ?thesis by simp
  qed
qed

lemma wf_take:
  "dfs_wellformed paths \<Longrightarrow> q \<in> set paths \<Longrightarrow> k < length q \<Longrightarrow> take (Suc k) q \<in> set paths"
  unfolding dfs_wellformed_def by (metis Suc_leI atLeastAtMost_iff le_add1 plus_1_eq_Suc)

lemma wf_nonempty: "dfs_wellformed paths \<Longrightarrow> q \<in> set paths \<Longrightarrow> q \<noteq> []"
  unfolding dfs_wellformed_def by metis

lemma node_payload_take: "k < length q \<Longrightarrow> node_payload (take (Suc k) q) = payload (q ! k)"
  by (simp add: node_payload_def take_Suc_conv_app_nth)

lemma butlast_take_Suc: "k < length q \<Longrightarrow> butlast (take (Suc k) q) = take k q"
  by (simp add: butlast_take)

lemma store_upd_node:
  "dfs_wellformed paths \<Longrightarrow> N \<in> set paths \<Longrightarrow> Q \<in> set paths \<Longrightarrow>
   (st(node_payload N := r')) (node_payload Q) = (if Q = N then r' else st (node_payload Q))"
  unfolding dfs_wellformed_def by (auto dest: inj_onD)

lemma own_upd:
  assumes wf: "dfs_wellformed paths" and N: "N \<in> set paths" and Q: "Q \<in> set paths"
    and C: "\<forall>y'. getC R r' y' = getC R (st (node_payload N)) y' + (if y' = y then dc else 0)"
    and T: "\<forall>y'. getT R r' y' = getT R (st (node_payload N)) y' + (if y' = y then dt else 0)"
  shows "own_customers R (st(node_payload N := r')) paths Q y'
         = own_customers R st paths Q y'
           + (if y' = y then (if Q = N then dc else 0) - (if butlast N = Q then dt else 0) else 0)"
proof -
  let ?st' = "st(node_payload N := r')"
  have c: "getC R (?st' (node_payload Q)) y'
           = getC R (st (node_payload Q)) y' + (if y' = y \<and> Q = N then dc else 0)"
    using store_upd_node[OF wf N Q, of st r'] C by simp
  have d: "distinct (children paths Q)"
    using wf by (simp add: children_def dfs_wellformed_def)
  have sub: "set (children paths Q) \<subseteq> set paths" by (auto simp: children_def)
  have o: "\<forall>x \<in> set (children paths Q). x \<noteq> N \<longrightarrow>
             getT R (?st' (node_payload x)) y' = getT R (st (node_payload x)) y'"
  proof (intro ballI impI)
    fix x assume x: "x \<in> set (children paths Q)" and ne: "x \<noteq> N"
    from x sub have "x \<in> set paths" by blast
    from store_upd_node[OF wf N this, of st r'] ne
    show "getT R (?st' (node_payload x)) y' = getT R (st (node_payload x)) y'" by simp
  qed
  have n: "getT R (?st' (node_payload N)) y'
           = getT R (st (node_payload N)) y' + (if y' = y then dt else 0)"
    using T by simp
  have m: "N \<in> set (children paths Q) \<longleftrightarrow> butlast N = Q"
    using N wf_nonempty[OF wf N] by (simp add: children_def)
  have "tables_of_children R ?st' paths Q y'
        = tables_of_children R st paths Q y'
          + (if butlast N = Q then (if y' = y then dt else 0) else 0)"
    unfolding tables_of_children_def using sum_list_map_upd[OF d o n] m by simp
  then show ?thesis using c by (simp add: own_customers_def)
qed

lemma nodes_consistent_upd:
  "nodes_consistent R st paths \<Longrightarrow> node_consistent R r' \<Longrightarrow>
   nodes_consistent R (st(p := r')) paths"
  by (simp add: nodes_consistent_def)


lemma wf_payload_neq:
  assumes "dfs_wellformed paths" "q \<in> set paths" "k < length q" "k' < length q" "k \<noteq> k'"
  shows "payload (q ! k) \<noteq> payload (q ! k')"
proof
  assume e: "payload (q ! k) = payload (q ! k')"
  have a: "take (Suc k) q \<in> set paths" "take (Suc k') q \<in> set paths"
    using assms wf_take by blast+
  have "node_payload (take (Suc k) q) = node_payload (take (Suc k')  q)"
    using e assms(3,4) by (simp add: node_payload_take)
  with a assms(1) have "take (Suc k) q = take (Suc k') q"
    unfolding dfs_wellformed_def by (meson inj_onD)
  then have "length (take (Suc k) q) = length (take (Suc k') q)" by simp
  with assms(3,4,5) show False by simp
qed

lemma directGibbs_write_root:
  "directGibbs_write R st q y 0 t tw' = Inr st' \<Longrightarrow>
   st' = st(payload (q ! 0) := setT R (st (payload (q ! 0))) y tw')"
  by (simp add: directGibbs_write_def Let_def fun_upd_fold)

lemma directGibbs_write_below:
  assumes "0 < k" "payload (q ! (k - 1)) \<noteq> payload (q ! k)"
    and "directGibbs_write R st q y (int k) t tw' = Inr st'"
  shows "getT R (st (payload (q ! (k - 1)))) y \<le> getC R (st (payload (q ! (k - 1)))) y - t + tw'"
    and "st' = (st(payload (q ! k) := setT R (st (payload (q ! k))) y tw'))
                 (payload (q ! (k - 1)) := setC R (st (payload (q ! (k - 1)))) y
                    (getC R (st (payload (q ! (k - 1)))) y - t + tw'))"
proof -
  have n: "nat (int k - 1) = k - 1" using assms(1) by simp
  from assms show "getT R (st (payload (q ! (k - 1)))) y
                     \<le> getC R (st (payload (q ! (k - 1)))) y - t + tw'"
    by (simp add: directGibbs_write_def Let_def n fun_upd_fold split: if_splits)
  from assms show "st' = (st(payload (q ! k) := setT R (st (payload (q ! k))) y tw'))
                 (payload (q ! (k - 1)) := setC R (st (payload (q ! (k - 1)))) y
                    (getC R (st (payload (q ! (k - 1)))) y - t + tw'))"
    by (simp add: directGibbs_write_def Let_def n fun_upd_fold split: if_splits)
qed

lemma node_consistent_setT:
  assumes "compact_contract R" "node_consistent R r" "1 \<le> tw'" "tw' \<le> getC R r y"
  shows "node_consistent R (setT R r y tw')"
  using assms unfolding compact_contract_def node_consistent_def by simp

lemma node_consistent_setC:
  assumes "compact_contract R" "node_consistent R r" "1 \<le> getT R r y" "getT R r y \<le> c"
  shows "node_consistent R (setC R r y c)"
proof -
  have c1: "1 \<le> c" using assms(3,4) by linarith
  have g: "\<And>y'. getC R (setC R r y c) y' = (if y' = y then c else getC R r y')"
    "\<And>y'. getT R (setC R r y c) y' = getT R r y'"
    using assms(1) by (simp_all add: compact_contract_def)
  have n: "\<And>y'. 0 \<le> getT R r y' \<and> getT R r y' \<le> getC R r y'
                 \<and> (1 \<le> getT R r y' \<longleftrightarrow> 1 \<le> getC R r y')"
    using assms(2) by (simp add: node_consistent_def)
  show ?thesis unfolding node_consistent_def
  proof (intro allI)
    fix y'
    show "0 \<le> getT R (setC R r y c) y' \<and> getT R (setC R r y c) y' \<le> getC R (setC R r y c) y'
          \<and> (1 \<le> getT R (setC R r y c) y' \<longleftrightarrow> 1 \<le> getC R (setC R r y c) y')"
    proof (cases "y' = y")
      case True
      have "0 \<le> getT R r y" "getT R r y \<le> c" "(1 \<le> getT R r y) = (1 \<le> c)"
        using n[of y] c1 assms(3,4) by blast+
      then show ?thesis unfolding g True by simp
    next
      case False
      then show ?thesis unfolding g using n[of y'] by simp
    qed
  qed
qed


lemma directGibbs_write_inv:
  assumes wf: "dfs_wellformed paths" and q: "q \<in> set paths" and k: "k < length q"
    and cc: "compact_contract R"
    and nc: "nodes_consistent R st paths"
    and h: "\<forall>P \<in> set paths. \<forall>y. 0 \<le> own_customers R st paths P y"
    and tw: "1 \<le> tw'" "tw' \<le> getC R (st (payload (q ! k))) y"
    and w: "directGibbs_write R st q y (int k) (getT R (st (payload (q ! k))) y) tw' = Inr st'"
  shows "nodes_consistent R st' paths
      \<and> (\<forall>P \<in> set paths. \<forall>y'. own_customers R st' paths P y' = own_customers R st paths P y')
      \<and> (0 < k \<longrightarrow> 1 \<le> getC R (st' (payload (q ! (k - 1)))) y)
      \<and> (\<forall>p. p \<notin> payload ` set (take (Suc k) q) \<longrightarrow> st' p = st p)
      \<and> getC R (st' (payload (q ! k))) = getC R (st (payload (q ! k)))"
proof -
  let ?N = "take (Suc k) q"
  let ?pN = "payload (q ! k)"
  let ?t = "getT R (st ?pN) y"
  let ?rN = "setT R (st ?pN) y tw'"
  have N: "?N \<in> set paths" by (rule wf_take[OF wf q k])
  have pN: "node_payload ?N = ?pN" by (rule node_payload_take[OF k])
  have cN: "node_consistent R (st ?pN)" using nc N pN by (auto simp: nodes_consistent_def)
  have rN: "node_consistent R ?rN" by (rule node_consistent_setT[OF cc cN tw])
  have CN: "\<forall>y'. getC R ?rN y' = getC R (st (node_payload ?N)) y' + (if y' = y then 0 else 0)"
    using cc by (simp add: compact_contract_def pN)
  have TN: "\<forall>y'. getT R ?rN y' = getT R (st (node_payload ?N)) y' + (if y' = y then tw' - ?t else 0)"
    using cc by (simp add: compact_contract_def pN)
  have o1: "own_customers R (st(?pN := ?rN)) paths Q y'
            = own_customers R st paths Q y'
              + (if y' = y then 0 - (if butlast ?N = Q then tw' - ?t else 0) else 0)"
    if "Q \<in> set paths" for Q y'
    using own_upd[where N = "?N" and r' = "?rN" and st = st and y = y and dc = 0
        and dt = "tw' - ?t" and y' = y', OF wf N that CN TN] by (simp add: pN)
  have gC: "getC R ?rN = getC R (st ?pN)" using cc by (auto simp: compact_contract_def)
  show ?thesis
  proof (cases "k = 0")
    case True
    have e: "st' = st(?pN := ?rN)" using w True directGibbs_write_root by simp
    have b: "butlast ?N \<noteq> Q" if "Q \<in> set paths" for Q
      using True wf_nonempty[OF wf that] butlast_take_Suc[OF k] by simp
    have m: "?pN \<in> payload ` set ?N" using k by (simp add: take_Suc_conv_app_nth)
    show ?thesis
      unfolding e using nodes_consistent_upd[OF nc rN] o1 b True m gC by auto
  next
    case False
    then have k0: "0 < k" by simp
    let ?P = "take k q"
    let ?pP = "payload (q ! (k - 1))"
    let ?c = "getC R (st ?pP) y - ?t + tw'"
    let ?rP = "setC R (st ?pP) y ?c"
    let ?st1 = "st(?pN := ?rN)"
    have k1: "k - 1 < length q" "Suc (k - 1) = k" using k k0 by simp_all
    have P: "?P \<in> set paths" using wf_take[OF wf q k1(1)] k1(2) by simp
    have pP: "node_payload ?P = ?pP" using node_payload_take[OF k1(1)] k1(2) by simp
    have ne: "?pP \<noteq> ?pN" using wf_payload_neq[OF wf q k1(1) k] k0 by simp
    have bN: "butlast ?N = ?P" by (rule butlast_take_Suc[OF k])
    from directGibbs_write_below[OF k0 ne w]
    have a: "getT R (st ?pP) y \<le> ?c" and e: "st' = ?st1(?pP := ?rP)" by simp_all
    have cP: "node_consistent R (st ?pP)" using nc P pP by (auto simp: nodes_consistent_def)
    have tN: "1 \<le> ?t" using cN tw by (auto simp: node_consistent_def)
    have chN: "?N \<in> set (children paths ?P)"
      using N bN wf_nonempty[OF wf N] by (simp add: children_def)
    have nn: "\<forall>x \<in> set (children paths ?P). 0 \<le> getT R (st (node_payload x)) y"
      using nc by (auto simp: children_def nodes_consistent_def node_consistent_def)
    have "?t \<le> tables_of_children R st paths ?P y"
      unfolding tables_of_children_def
      using member_le_sum_list_int[OF chN nn] by (simp add: pN)
    moreover have "0 \<le> own_customers R st paths ?P y" using h P by blast
    ultimately have "1 \<le> getC R (st ?pP) y" using tN by (simp add: own_customers_def pP)
    then have tP: "1 \<le> getT R (st ?pP) y" using cP by (auto simp: node_consistent_def)
    have rP: "node_consistent R ?rP" by (rule node_consistent_setC[OF cc cP tP a])
    have s1P: "?st1 (node_payload ?P) = st ?pP" using ne by (simp add: pP)
    have CP: "\<forall>y'. getC R ?rP y' = getC R (?st1 (node_payload ?P)) y'
                              + (if y' = y then tw' - ?t else 0)"
      unfolding s1P using cc by (simp add: compact_contract_def)
    have TP: "\<forall>y'. getT R ?rP y' = getT R (?st1 (node_payload ?P)) y' + (if y' = y then 0 else 0)"
      unfolding s1P using cc by (simp add: compact_contract_def)
    have o2: "own_customers R (?st1(?pP := ?rP)) paths Q y' = own_customers R st paths Q y'"
      if "Q \<in> set paths" for Q y'
      using own_upd[where N = "?P" and r' = "?rP" and st = "?st1" and y = y
        and dc = "tw' - ?t" and dt = 0 and y' = y', OF wf P that CP TP] o1[OF that, of y'] bN
      by (auto simp: pP)
    have n1: "nodes_consistent R ?st1 paths" by (rule nodes_consistent_upd[OF nc rN])
    have cnew: "1 \<le> getC R ?rP y" using cc tP a by (simp add: compact_contract_def)
    have m: "?pN \<in> payload ` set ?N" "?pP \<in> payload ` set ?N"
      using k k0 by (auto simp: take_Suc_conv_app_nth in_set_conv_nth intro!: image_eqI[where x = "q ! (k - 1)"] exI[where x = "k - 1"])
    show ?thesis
      unfolding e using nodes_consistent_upd[OF n1 rP] o2 cnew m gC ne by auto
  qed
qed


lemma combine_logProbs_length:
  assumes "utils_contract U"
    and "length l1 = n" "length l2 = n" "length l3 = n" "length l4 = n"
  shows "length (combine_logProbs U n (l1, l2, l3, l4)) = n"
  using assms by (simp add: combine_logProbs_def utils_contract_def Let_def)

lemma directGibbs_logProbs_lengths:
  assumes "directGibbs_logProbs R U st pth discountPath concentrationPath payloadDataPath bp y j
             = Inr ls" and "0 \<le> j"
  shows "\<exists>l1 l2 l3 l4. ls = (l1, l2, l3, l4)
           \<and> length l1 = nat (getC R (st (payload (pth ! nat j))) y)
           \<and> length l2 = nat (getC R (st (payload (pth ! nat j))) y)
           \<and> length l3 = nat (getC R (st (payload (pth ! nat j))) y)
           \<and> length l4 = nat (getC R (st (payload (pth ! nat j))) y)"
proof -
  from assms(1) have "j < int (length payloadDataPath)"
    by (auto simp: directGibbs_logProbs_def vec_at_def split: if_splits sum.splits)
  from directGibbs_logProbs_entries[OF assms(2) this, of R U st pth discountPath
      concentrationPath bp y] assms(1)
  show ?thesis by auto
qed

lemma directGibbs_round_step:
  assumes uc: "utils_contract U"
    and w: "directGibbs_round R U q dP cP pdP bp y (int k) (st, g) = Inr (goUp', j', st', g')"
    and c: "1 \<le> getC R (st (payload (q ! k))) y"
  shows "\<exists>i. 0 \<le> i \<and> i + 1 \<le> getC R (st (payload (q ! k))) y
           \<and> directGibbs_write R st q y (int k) (getT R (st (payload (q ! k))) y) (i + 1)
               = Inr st'"
proof -
  let ?cw = "getC R (st (payload (q ! k))) y"
  from w obtain ls where lp: "directGibbs_logProbs R U st q dP cP pdP bp y (int k) = Inr ls"
    by (auto simp: directGibbs_round_def split: sum.splits)
  from directGibbs_logProbs_lengths[OF lp] obtain l1 l2 l3 l4 where
    ls: "ls = (l1, l2, l3, l4)" and
    len: "length l1 = nat ?cw" "length l2 = nat ?cw" "length l3 = nat ?cw" "length l4 = nat ?cw"
    by auto
  let ?pdf = "combine_logProbs U (nat ?cw) ls"
  have n: "length ?pdf = nat ?cw" unfolding ls by (rule combine_logProbs_length[OF uc len])
  then have ne: "?pdf \<noteq> []" using c by auto
  obtain i g1 where smp: "sample_unnormalized_pdf U ?pdf 0 g = (i, g1)"
    by (cases "sample_unnormalized_pdf U ?pdf 0 g") auto
  from uc ne have "0 \<le> fst (sample_unnormalized_pdf U ?pdf 0 g)
                   \<and> fst (sample_unnormalized_pdf U ?pdf 0 g) < int (length ?pdf)"
    unfolding utils_contract_def by blast
  then have i: "0 \<le> i" "i + 1 \<le> ?cw" using smp n c by auto
  from w lp smp have
    "directGibbs_write R st q y (int k) (getT R (st (payload (q ! k))) y) (i + 1) = Inr st'"
    by (auto simp: directGibbs_round_def Let_def split: sum.splits if_splits)
  with i show ?thesis by blast
qed

lemma directGibbs_while_inv:
  assumes wf: "dfs_wellformed paths" and q: "q \<in> set paths"
    and cc: "compact_contract R" and uc: "utils_contract U"
    and k: "k < length q" and nc: "nodes_consistent R st paths"
    and h: "\<forall>P \<in> set paths. \<forall>y. 0 \<le> own_customers R st paths P y"
    and c: "1 \<le> getC R (st (payload (q ! k))) y"
    and w: "directGibbs_while R U q dP cP pdP bp y True (int k) (st, g) = Inr (st', g')"
  shows "nodes_consistent R st' paths
     \<and> (\<forall>P \<in> set paths. \<forall>y'. own_customers R st' paths P y' = own_customers R st paths P y')
     \<and> (\<forall>p. p \<notin> payload ` set (take (Suc k) q) \<longrightarrow> st' p = st p)
     \<and> getC R (st' (payload (q ! k))) = getC R (st (payload (q ! k)))"
proof -
  from w obtain goUp' j' where
    r: "directGibbs_round R U q dP cP pdP bp y (int k) (st, g) = Inr (goUp', j', st', g')"
    unfolding directGibbs_while_once
    by (cases "directGibbs_round R U q dP cP pdP bp y (int k) (st, g)") auto
  from directGibbs_round_step[OF uc r c] obtain i where
    i: "0 \<le> i" "i + 1 \<le> getC R (st (payload (q ! k))) y"
    and wr: "directGibbs_write R st q y (int k) (getT R (st (payload (q ! k))) y) (i + 1)
               = Inr st'"
    by blast
  have "1 \<le> i + 1" using i by simp
  from directGibbs_write_inv[OF wf q k cc nc h this i(2) wr] show ?thesis by blast
qed

lemma directGibbs_types_inv:
  assumes wf: "dfs_wellformed paths" and q: "q \<in> set paths"
    and cc: "compact_contract R" and uc: "utils_contract U"
    and len: "length dP = length q"
  shows "\<forall>y \<in> set types. 1 \<le> getC R (st (payload (last q))) y \<Longrightarrow>
     nodes_consistent R st paths \<Longrightarrow>
     \<forall>P \<in> set paths. \<forall>y. 0 \<le> own_customers R st paths P y \<Longrightarrow>
     directGibbs_types R U q dP cP pdP bp types (st, g) = Inr (st', g') \<Longrightarrow>
     nodes_consistent R st' paths
     \<and> (\<forall>P \<in> set paths. \<forall>y'. own_customers R st' paths P y' = own_customers R st paths P y')"
proof (induction types arbitrary: st g)
  case Nil
  then show ?case by simp
next
  case (Cons y types)
  have ne: "q \<noteq> []" by (rule wf_nonempty[OF wf q])
  let ?k = "length q - 1"
  have k: "?k < length q" using ne by simp
  have lq: "last q = q ! ?k" using ne by (rule last_conv_nth)
  have j: "int (length dP) - 1 = int ?k" using ne len by (cases q) auto
  show ?case
  proof (cases "getC R (st (payload (last q))) y = 1")
    case True
    with Cons.prems(4) have
      "directGibbs_types R U q dP cP pdP bp types (st, g) = Inr (st', g')" by simp
    from Cons.IH[OF _ Cons.prems(2,3) this] Cons.prems(1) show ?thesis by simp
  next
    case False
    with Cons.prems(4) obtain st1 g1 where
      w: "directGibbs_while R U q dP cP pdP bp y True (int ?k) (st, g) = Inr (st1, g1)"
      and rec: "directGibbs_types R U q dP cP pdP bp types (st1, g1) = Inr (st', g')"
      by (auto simp: j split: sum.splits)
    have c: "1 \<le> getC R (st (payload (q ! ?k))) y" using Cons.prems(1) lq by simp
    note d = directGibbs_while_inv[OF wf q cc uc k Cons.prems(2,3) c w]
    have n1: "nodes_consistent R st1 paths" using d by blast
    have o1: "\<forall>P \<in> set paths. \<forall>y'. own_customers R st1 paths P y' = own_customers R st paths P y'"
      using d by blast
    have h1: "\<forall>P \<in> set paths. \<forall>y. 0 \<le> own_customers R st1 paths P y"
      using o1 Cons.prems(3) by simp
    have "getC R (st1 (payload (last q))) = getC R (st (payload (last q)))"
      using d lq by simp
    then have t1: "\<forall>y \<in> set types. 1 \<le> getC R (st1 (payload (last q))) y"
      using Cons.prems(1) by simp
    from Cons.IH[OF t1 n1 h1 rec] o1 show ?thesis by simp
  qed
qed

lemma directGibbsSamplePath_inv:
  assumes wf: "dfs_wellformed paths" and q: "q \<in> set paths"
    and cc: "compact_contract (restaurant E)" and uc: "utils_contract U"
    and tc: "types_contract (restaurant E)"
    and nc: "nodes_consistent (restaurant E) (store m) paths"
    and h: "\<forall>P \<in> set paths. \<forall>y. 0 \<le> own_customers (restaurant E) (store m) paths P y"
    and run: "directGibbsSamplePath E U m q dP cP pdP bp = Inr m'"
  shows "nodes_consistent (restaurant E) (store m') paths
     \<and> (\<forall>P \<in> set paths. \<forall>y'. own_customers (restaurant E) (store m') paths P y'
                               = own_customers (restaurant E) (store m) paths P y')
     \<and> tree m' = tree m"
proof -
  from run have pa: "path_asserts q dP cP"
    by (auto simp: directGibbsSamplePath_def split: if_splits)
  then have len: "length dP = length q" by (auto simp: path_asserts_def)
  from run pa obtain st' g' where
    t: "directGibbs_types (restaurant E) U q dP cP pdP bp
          (getTypeVector (restaurant E) (store m (payload (last q)))) (store m, rng m)
        = Inr (st', g')"
    and m': "m' = m\<lparr>store := st', rng := g'\<rparr>"
    by (auto simp: directGibbsSamplePath_def split: sum.splits)
  have ty: "\<forall>y \<in> set (getTypeVector (restaurant E) (store m (payload (last q)))).
              1 \<le> getC (restaurant E) (store m (payload (last q))) y"
    using tc unfolding types_contract_def by blast
  from directGibbs_types_inv[OF wf q cc uc len ty nc h t] m' show ?thesis by simp
qed


lemma node_upd_inv:
  assumes wf: "dfs_wellformed paths" and q: "q \<in> set paths" and k: "k < length q"
    and nc: "nodes_consistent R st paths" and r': "node_consistent R r'"
    and C: "\<forall>y'. getC R r' y' = getC R (st (payload (q ! k))) y' + (if y' = y then dc else 0)"
    and T: "\<forall>y'. getT R r' y' = getT R (st (payload (q ! k))) y' + (if y' = y then dt else 0)"
  shows "nodes_consistent R (st(payload (q ! k) := r')) paths
     \<and> (\<forall>Q \<in> set paths. \<forall>y'.
          own_customers R (st(payload (q ! k) := r')) paths Q y'
          = own_customers R st paths Q y'
            + (if y' = y then (if Q = take (Suc k) q then dc else 0)
                              - (if take k q = Q then dt else 0) else 0))"
proof -
  have N: "take (Suc k) q \<in> set paths" by (rule wf_take[OF wf q k])
  have pN: "node_payload (take (Suc k) q) = payload (q ! k)" by (rule node_payload_take[OF k])
  have bN: "butlast (take (Suc k) q) = take k q" by (rule butlast_take_Suc[OF k])
  have "own_customers R (st(payload (q ! k) := r')) paths Q y'
          = own_customers R st paths Q y'
            + (if y' = y then (if Q = take (Suc k) q then dc else 0)
                              - (if take k q = Q then dt else 0) else 0)"
    if "Q \<in> set paths" for Q y'
    using own_upd[where N = "take (Suc k) q" and r' = r' and st = st and y = y and dc = dc
        and dt = dt and y' = y' and R = R, OF wf N that] C T
    by (simp add: pN bN)
  then show ?thesis using nodes_consistent_upd[OF nc r'] by blast
qed

lemma parent_has_customer:
  assumes wf: "dfs_wellformed paths" and q: "q \<in> set paths" and k: "Suc k < length q"
    and nc: "nodes_consistent R st paths"
    and h: "0 \<le> own_customers R st paths (take (Suc k) q) y"
    and c: "1 \<le> getC R (st (payload (q ! Suc k))) y"
  shows "1 \<le> getC R (st (payload (q ! k))) y"
proof -
  let ?N = "take (Suc (Suc k)) q"
  let ?P = "take (Suc k) q"
  have k': "k < length q" using k by simp
  have N: "?N \<in> set paths" by (rule wf_take[OF wf q k])
  have pN: "node_payload ?N = payload (q ! Suc k)" by (rule node_payload_take[OF k])
  have pP: "node_payload ?P = payload (q ! k)" by (rule node_payload_take[OF k'])
  have bN: "butlast ?N = ?P" by (rule butlast_take_Suc[OF k])
  have cN: "node_consistent R (st (payload (q ! Suc k)))"
    using nc N pN by (auto simp: nodes_consistent_def)
  have tN: "1 \<le> getT R (st (payload (q ! Suc k))) y"
    using cN c by (auto simp: node_consistent_def)
  have chN: "?N \<in> set (children paths ?P)"
    using N bN wf_nonempty[OF wf N] by (simp add: children_def)
  have nn: "\<forall>x \<in> set (children paths ?P). 0 \<le> getT R (st (node_payload x)) y"
    using nc by (auto simp: children_def nodes_consistent_def node_consistent_def)
  have "getT R (st (payload (q ! Suc k))) y \<le> tables_of_children R st paths ?P y"
    unfolding tables_of_children_def
    using member_le_sum_list_int[OF chN nn] by (simp add: pN)
  then show ?thesis using tN h by (simp add: own_customers_def pP)
qed

lemma payload_notin_take:
  assumes wf: "dfs_wellformed paths" and q: "q \<in> set paths" and k: "k < length q" and j: "j \<le> k"
  shows "payload (q ! k) \<notin> payload ` set (take j q)"
proof
  assume "payload (q ! k) \<in> payload ` set (take j q)"
  then obtain x where x: "x \<in> set (take j q)" "payload (q ! k) = payload x" by blast
  then obtain i where i: "i < j" "i < length q" "x = q ! i"
    by (auto simp: in_set_conv_nth)
  with wf_payload_neq[OF wf q k i(2)] x j show False by simp
qed


lemma remove_contractD:
  assumes "addRemove_contract R" "node_consistent R r" "1 \<le> getC R r y"
    and "removeCustomer R r y d extra w g = (w', r', g')"
  shows "node_consistent R r'"
    and "\<forall>y'. getC R r' y' = getC R r y' + (if y' = y then - 1 else 0)"
    and "\<forall>y'. getT R r' y' = getT R r y' + (if y' = y then (if w' \<noteq> 0 then - 1 else 0) else 0)"
proof -
  note c = assms(1)[unfolded addRemove_contract_def, THEN conjunct2, rule_format,
      of r y d extra w g]
  have "case removeCustomer R r y d extra w g of
          (w', r', g') \<Rightarrow>
            node_consistent R r'
            \<and> (\<forall>y'. getC R r' y' = getC R r y' - (if y' = y then 1 else 0))
            \<and> (\<forall>y'. getT R r' y' = getT R r y' - (if y' = y \<and> w' \<noteq> 0 then 1 else 0))"
    by (rule c) (use assms(2,3) in simp)
  with assms(4) have a: "node_consistent R r'"
    "\<forall>y'. getC R r' y' = getC R r y' - (if y' = y then 1 else 0)"
    "\<forall>y'. getT R r' y' = getT R r y' - (if y' = y \<and> w' \<noteq> 0 then 1 else 0)"
    by simp_all
  show "node_consistent R r'" by (rule a(1))
  show "\<forall>y'. getC R r' y' = getC R r y' + (if y' = y then - 1 else 0)" using a(2) by simp
  show "\<forall>y'. getT R r' y' = getT R r y' + (if y' = y then (if w' \<noteq> 0 then - 1 else 0) else 0)"
    using a(3) by simp
qed

lemma add_contractD:
  assumes "addRemove_contract R" "node_consistent R r"
    and "addCustomer R r y p d a extra w g = (w', r', g')"
  shows "node_consistent R r'"
    and "\<forall>y'. getC R r' y' = getC R r y' + (if y' = y then 1 else 0)"
    and "\<forall>y'. getT R r' y' = getT R r y' + (if y' = y then (if w' \<noteq> 0 then 1 else 0) else 0)"
proof -
  note c = assms(1)[unfolded addRemove_contract_def, THEN conjunct1, rule_format,
      of r y p d a extra w g]
  have "case addCustomer R r y p d a extra w g of
          (w', r', g') \<Rightarrow>
            node_consistent R r'
            \<and> (\<forall>y'. getC R r' y' = getC R r y' + (if y' = y then 1 else 0))
            \<and> (\<forall>y'. getT R r' y' = getT R r y' + (if y' = y \<and> w' \<noteq> 0 then 1 else 0))"
    by (rule c) (rule assms(2))
  with assms(3) have a: "node_consistent R r'"
    "\<forall>y'. getC R r' y' = getC R r y' + (if y' = y then 1 else 0)"
    "\<forall>y'. getT R r' y' = getT R r y' + (if y' = y \<and> w' \<noteq> 0 then 1 else 0)"
    by simp_all
  show "node_consistent R r'" by (rule a(1))
  show "\<forall>y'. getC R r' y' = getC R r y' + (if y' = y then 1 else 0)" by (rule a(2))
  show "\<forall>y'. getT R r' y' = getT R r y' + (if y' = y then (if w' \<noteq> 0 then 1 else 0) else 0)"
    using a(3) by simp
qed

lemma addRemove_remove_unfold:
  assumes "k < length q"
    and "removeCustomer R (st (payload (q ! k))) y (dP ! k)
           (if ad then Some (pdP ! k) else None) 1 g = (w', r', g1)"
  shows "addRemove_remove R q dP pdP ad y (int k) (st, g)
         = (if w' \<noteq> 0
            then addRemove_remove R q dP pdP ad y (int k - 1) (st(payload (q ! k) := r'), g1)
            else Inr (int k, st(payload (q ! k) := r'), g1))"
  using assms
  by (subst addRemove_remove.simps) (simp add: vec_at_in Let_def fun_upd_fold split del: if_split cong: if_cong)

lemma addRemove_add_unfold:
  assumes "k < length q"
    and "addCustomer R (st (payload (q ! k))) y (pp ! k) (dP ! k) (cP ! k)
           (if ad then Some (pdP ! k) else None) 1 g = (w', r', g1)"
  shows "addRemove_add R q dP cP pdP ad y pp (int k) (st, g)
         = (if w' \<noteq> 0
            then addRemove_add R q dP cP pdP ad y pp (int k - 1) (st(payload (q ! k) := r'), g1)
            else Inr (st(payload (q ! k) := r'), g1))"
  using assms
  by (subst addRemove_add.simps) (simp add: vec_at_in Let_def fun_upd_fold split del: if_split cong: if_cong)


lemma take_neq: "a \<le> length q \<Longrightarrow> b \<le> length q \<Longrightarrow> a \<noteq> b \<Longrightarrow> take a q \<noteq> take b q"
  by (metis length_take min.absorb2)

lemma payload_in_take: "k < length q \<Longrightarrow> payload (q ! k) \<in> payload ` set (take (Suc k) q)"
  by (simp add: take_Suc_conv_app_nth)

lemma addRemove_remove_inv:
  assumes wf: "dfs_wellformed paths" and q: "q \<in> set paths" and ac: "addRemove_contract R"
  shows "k < length q \<Longrightarrow> nodes_consistent R st paths \<Longrightarrow>
     \<forall>k' < k. 0 \<le> own_customers R st paths (take (Suc k') q) y \<Longrightarrow>
     1 \<le> getC R (st (payload (q ! k))) y \<Longrightarrow>
     addRemove_remove R q dP pdP ad y (int k) (st, g) = Inr (j, st', g') \<Longrightarrow>
     nodes_consistent R st' paths
     \<and> (\<forall>Q \<in> set paths. \<forall>y'. own_customers R st' paths Q y'
           = own_customers R st paths Q y' + (if y' = y \<and> Q = take (Suc k) q then - 1 else 0))
     \<and> (\<forall>p. p \<notin> payload ` set (take (Suc k) q) \<longrightarrow> st' p = st p)
     \<and> (\<forall>y'. getC R (st' (payload (q ! k))) y'
           = getC R (st (payload (q ! k))) y' + (if y' = y then - 1 else 0))"
proof (induction k arbitrary: st g j)
  case 0
  let ?pN = "payload (q ! 0)"
  obtain w' r' g1 where rc: "removeCustomer R (st ?pN) y (dP ! 0)
      (if ad then Some (pdP ! 0) else None) 1 g = (w', r', g1)"
    by (cases "removeCustomer R (st ?pN) y (dP ! 0) (if ad then Some (pdP ! 0) else None) 1 g")
      auto
  have N: "take (Suc 0) q \<in> set paths" by (rule wf_take[OF wf q "0.prems"(1)])
  have cN: "node_consistent R (st ?pN)"
    using "0.prems"(2) N node_payload_take[OF "0.prems"(1)]
    by (auto simp: nodes_consistent_def)
  note c = remove_contractD[OF ac cN "0.prems"(4) rc]
  note u = node_upd_inv[OF wf q "0.prems"(1,2) c]
  have e: "st' = st(?pN := r')"
    using "0.prems"(5) addRemove_remove_unfold[where R = R and q = q and st = st and k = 0 and y = y
        and dP = dP and ad = ad and pdP = pdP and g = g, OF "0.prems"(1) rc]
    by (auto simp: addRemove_remove.simps split: if_splits)
  have b: "take 0 q \<noteq> Q" if "Q \<in> set paths" for Q using wf_nonempty[OF wf that] by simp
  have A: "nodes_consistent R st' paths" unfolding e using u by blast
  have B: "own_customers R st' paths Q y'
           = own_customers R st paths Q y' + (if y' = y \<and> Q = take (Suc 0) q then - 1 else 0)"
    if "Q \<in> set paths" for Q y'
    unfolding e using u[THEN conjunct2, rule_format, OF that, of y'] b[OF that] by auto
  have C: "st' p = st p" if "p \<notin> payload ` set (take (Suc 0) q)" for p
  proof -
    from that payload_in_take[OF "0.prems"(1)] have "p \<noteq> ?pN" by blast
    then show ?thesis unfolding e by simp
  qed
  have D: "getC R (st' ?pN) y' = getC R (st ?pN) y' + (if y' = y then - 1 else 0)" for y'
    unfolding e using c(2) by simp
  show ?case using A B C D by blast
next
  case (Suc k)
  let ?k = "Suc k"
  let ?pN = "payload (q ! ?k)"
  obtain w' r' g1 where rc: "removeCustomer R (st ?pN) y (dP ! ?k)
      (if ad then Some (pdP ! ?k) else None) 1 g = (w', r', g1)"
    by (cases "removeCustomer R (st ?pN) y (dP ! ?k) (if ad then Some (pdP ! ?k) else None) 1 g")
      auto
  have N: "take (Suc ?k) q \<in> set paths" by (rule wf_take[OF wf q Suc.prems(1)])
  have cN: "node_consistent R (st ?pN)"
    using Suc.prems(2) N node_payload_take[OF Suc.prems(1)]
    by (auto simp: nodes_consistent_def)
  note c = remove_contractD[OF ac cN Suc.prems(4) rc]
  note u = node_upd_inv[OF wf q Suc.prems(1,2) c]
  let ?st1 = "st(?pN := r')"
  note unf = addRemove_remove_unfold[where R = R and q = q and st = st and k = ?k and y = y
      and dP = dP and ad = ad and pdP = pdP and g = g, OF Suc.prems(1) rc]
  show ?case
  proof (cases "w' = 0")
    case True
    with Suc.prems(5) unf have e: "st' = ?st1" by simp
    have A: "nodes_consistent R st' paths" unfolding e using u by blast
    have B: "own_customers R st' paths Q y'
           = own_customers R st paths Q y' + (if y' = y \<and> Q = take (Suc ?k) q then - 1 else 0)"
      if "Q \<in> set paths" for Q y'
      unfolding e using u[THEN conjunct2, rule_format, OF that, of y'] True by auto
    have C: "st' p = st p" if "p \<notin> payload ` set (take (Suc ?k) q)" for p
    proof -
      from that payload_in_take[OF Suc.prems(1)] have "p \<noteq> ?pN" by blast
      then show ?thesis unfolding e by simp
    qed
    have D: "getC R (st' ?pN) y' = getC R (st ?pN) y' + (if y' = y then - 1 else 0)" for y'
      unfolding e using c(2) by simp
    show ?thesis using A B C D by blast
  next
    case False
    with Suc.prems(5) unf have
      rec: "addRemove_remove R q dP pdP ad y (int k) (?st1, g1) = Inr (j, st', g')" by simp
    have kl: "k < length q" using Suc.prems(1) by simp
    have n1: "nodes_consistent R ?st1 paths" using u by blast
    have o1: "own_customers R ?st1 paths Q y'
              = own_customers R st paths Q y'
                + (if y' = y then (if Q = take (Suc ?k) q then - 1 else 0)
                                  - (if take ?k q = Q then - 1 else 0) else 0)"
      if "Q \<in> set paths" for Q y'
      using u that False by simp
    have h1: "\<forall>k' < k. 0 \<le> own_customers R ?st1 paths (take (Suc k') q) y"
    proof (intro allI impI)
      fix k' assume k': "k' < k"
      have Q: "take (Suc k') q \<in> set paths" by (rule wf_take[OF wf q]) (use k' kl in simp)
      have "take (Suc k') q \<noteq> take (Suc ?k) q"
        by (rule take_neq) (use k' Suc.prems(1) in simp_all)
      moreover have "take ?k q \<noteq> take (Suc k') q"
        by (rule take_neq) (use k' Suc.prems(1) in simp_all)
      ultimately have "take (Suc k') q \<noteq> take (Suc ?k) q" "take ?k q \<noteq> take (Suc k') q"
        by blast+
      then have "own_customers R ?st1 paths (take (Suc k') q) y
                 = own_customers R st paths (take (Suc k') q) y"
        using o1[OF Q, of y] by simp
      then show "0 \<le> own_customers R ?st1 paths (take (Suc k') q) y"
        using Suc.prems(3) k' by simp
    qed
    have ne: "payload (q ! k) \<noteq> ?pN" by (rule wf_payload_neq[OF wf q kl Suc.prems(1)]) simp
    have "1 \<le> getC R (st (payload (q ! k))) y"
      by (rule parent_has_customer[OF wf q Suc.prems(1,2) _ Suc.prems(4)])
        (use Suc.prems(3) in simp)
    then have c1: "1 \<le> getC R (?st1 (payload (q ! k))) y" using ne by simp
    note ih = Suc.IH[OF kl n1 h1 c1 rec]
    have f2: "\<forall>p. p \<notin> payload ` set (take (Suc k) q) \<longrightarrow> st' p = ?st1 p" using ih by blast
    have notin: "?pN \<notin> payload ` set (take (Suc k) q)"
      by (rule payload_notin_take[OF wf q Suc.prems(1)]) simp
    have sub: "set (take (Suc k) q) \<subseteq> set (take (Suc ?k) q)"
      by (rule set_take_subset_set_take) simp
    have A: "nodes_consistent R st' paths" using ih by blast
    have B: "own_customers R st' paths Q y'
           = own_customers R st paths Q y' + (if y' = y \<and> Q = take (Suc ?k) q then - 1 else 0)"
      if "Q \<in> set paths" for Q y'
    proof -
      have "own_customers R st' paths Q y'
            = own_customers R ?st1 paths Q y' + (if y' = y \<and> Q = take (Suc k) q then - 1 else 0)"
        using ih that by blast
      moreover have "take (Suc k) q \<noteq> take (Suc ?k) q"
        by (rule take_neq) (use Suc.prems(1) in simp_all)
      ultimately show ?thesis using o1[OF that, of y'] by auto
    qed
    have C: "st' p = st p" if "p \<notin> payload ` set (take (Suc ?k) q)" for p
    proof -
      from that sub have "p \<notin> payload ` set (take (Suc k) q)" by blast
      moreover from that payload_in_take[OF Suc.prems(1)] have "p \<noteq> ?pN" by blast
      ultimately show ?thesis using f2 by simp
    qed
    have D: "getC R (st' ?pN) y' = getC R (st ?pN) y' + (if y' = y then - 1 else 0)" for y'
      using f2 notin c(2) by simp
    show ?thesis using A B C D by blast
  qed
qed


lemma addRemove_add_inv:
  assumes wf: "dfs_wellformed paths" and q: "q \<in> set paths" and ac: "addRemove_contract R"
  shows "k < length q \<Longrightarrow> nodes_consistent R st paths \<Longrightarrow>
     addRemove_add R q dP cP pdP ad y pp (int k) (st, g) = Inr (st', g') \<Longrightarrow>
     nodes_consistent R st' paths
     \<and> (\<forall>Q \<in> set paths. \<forall>y'. own_customers R st' paths Q y'
           = own_customers R st paths Q y' + (if y' = y \<and> Q = take (Suc k) q then 1 else 0))
     \<and> (\<forall>p. p \<notin> payload ` set (take (Suc k) q) \<longrightarrow> st' p = st p)
     \<and> (\<forall>y'. getC R (st' (payload (q ! k))) y'
           = getC R (st (payload (q ! k))) y' + (if y' = y then 1 else 0))"
proof (induction k arbitrary: st g)
  case 0
  let ?pN = "payload (q ! 0)"
  obtain w' r' g1 where rc: "addCustomer R (st ?pN) y (pp ! 0) (dP ! 0) (cP ! 0)
      (if ad then Some (pdP ! 0) else None) 1 g = (w', r', g1)"
    by (cases "addCustomer R (st ?pN) y (pp ! 0) (dP ! 0) (cP ! 0)
                 (if ad then Some (pdP ! 0) else None) 1 g") auto
  have N: "take (Suc 0) q \<in> set paths" by (rule wf_take[OF wf q "0.prems"(1)])
  have cN: "node_consistent R (st ?pN)"
    using "0.prems"(2) N node_payload_take[OF "0.prems"(1)]
    by (auto simp: nodes_consistent_def)
  note c = add_contractD[OF ac cN rc]
  note u = node_upd_inv[OF wf q "0.prems"(1,2) c]
  have e: "st' = st(?pN := r')"
    using "0.prems"(3) addRemove_add_unfold[where R = R and q = q and st = st and k = 0
        and y = y and dP = dP and cP = cP and pp = pp and ad = ad and pdP = pdP and g = g,
        OF "0.prems"(1) rc]
    by (auto simp: addRemove_add.simps split: if_splits)
  have b: "take 0 q \<noteq> Q" if "Q \<in> set paths" for Q using wf_nonempty[OF wf that] by simp
  have A: "nodes_consistent R st' paths" unfolding e using u by blast
  have B: "own_customers R st' paths Q y'
           = own_customers R st paths Q y' + (if y' = y \<and> Q = take (Suc 0) q then 1 else 0)"
    if "Q \<in> set paths" for Q y'
    unfolding e using u[THEN conjunct2, rule_format, OF that, of y'] b[OF that] by auto
  have C: "st' p = st p" if "p \<notin> payload ` set (take (Suc 0) q)" for p
  proof -
    from that payload_in_take[OF "0.prems"(1)] have "p \<noteq> ?pN" by blast
    then show ?thesis unfolding e by simp
  qed
  have D: "getC R (st' ?pN) y' = getC R (st ?pN) y' + (if y' = y then 1 else 0)" for y'
    unfolding e using c(2) by simp
  show ?case using A B C D by blast
next
  case (Suc k)
  let ?k = "Suc k"
  let ?pN = "payload (q ! ?k)"
  obtain w' r' g1 where rc: "addCustomer R (st ?pN) y (pp ! ?k) (dP ! ?k) (cP ! ?k)
      (if ad then Some (pdP ! ?k) else None) 1 g = (w', r', g1)"
    by (cases "addCustomer R (st ?pN) y (pp ! ?k) (dP ! ?k) (cP ! ?k)
                 (if ad then Some (pdP ! ?k) else None) 1 g") auto
  have N: "take (Suc ?k) q \<in> set paths" by (rule wf_take[OF wf q Suc.prems(1)])
  have cN: "node_consistent R (st ?pN)"
    using Suc.prems(2) N node_payload_take[OF Suc.prems(1)]
    by (auto simp: nodes_consistent_def)
  note c = add_contractD[OF ac cN rc]
  note u = node_upd_inv[OF wf q Suc.prems(1,2) c]
  let ?st1 = "st(?pN := r')"
  note unf = addRemove_add_unfold[where R = R and q = q and st = st and k = ?k
        and y = y and dP = dP and cP = cP and pp = pp and ad = ad and pdP = pdP and g = g,
        OF Suc.prems(1) rc]
  show ?case
  proof (cases "w' = 0")
    case True
    with Suc.prems(3) unf have e: "st' = ?st1" by simp
    have A: "nodes_consistent R st' paths" unfolding e using u by blast
    have B: "own_customers R st' paths Q y'
           = own_customers R st paths Q y' + (if y' = y \<and> Q = take (Suc ?k) q then 1 else 0)"
      if "Q \<in> set paths" for Q y'
      unfolding e using u[THEN conjunct2, rule_format, OF that, of y'] True by auto
    have C: "st' p = st p" if "p \<notin> payload ` set (take (Suc ?k) q)" for p
    proof -
      from that payload_in_take[OF Suc.prems(1)] have "p \<noteq> ?pN" by blast
      then show ?thesis unfolding e by simp
    qed
    have D: "getC R (st' ?pN) y' = getC R (st ?pN) y' + (if y' = y then 1 else 0)" for y'
      unfolding e using c(2) by simp
    show ?thesis using A B C D by blast
  next
    case False
    with Suc.prems(3) unf have
      rec: "addRemove_add R q dP cP pdP ad y pp (int k) (?st1, g1) = Inr (st', g')" by simp
    have kl: "k < length q" using Suc.prems(1) by simp
    have n1: "nodes_consistent R ?st1 paths" using u by blast
    have o1: "own_customers R ?st1 paths Q y'
              = own_customers R st paths Q y'
                + (if y' = y then (if Q = take (Suc ?k) q then 1 else 0)
                                  - (if take ?k q = Q then 1 else 0) else 0)"
      if "Q \<in> set paths" for Q y'
      using u that False by simp
    note ih = Suc.IH[OF kl n1 rec]
    have f2: "\<forall>p. p \<notin> payload ` set (take (Suc k) q) \<longrightarrow> st' p = ?st1 p" using ih by blast
    have notin: "?pN \<notin> payload ` set (take (Suc k) q)"
      by (rule payload_notin_take[OF wf q Suc.prems(1)]) simp
    have sub: "set (take (Suc k) q) \<subseteq> set (take (Suc ?k) q)"
      by (rule set_take_subset_set_take) simp
    have A: "nodes_consistent R st' paths" using ih by blast
    have B: "own_customers R st' paths Q y'
           = own_customers R st paths Q y' + (if y' = y \<and> Q = take (Suc ?k) q then 1 else 0)"
      if "Q \<in> set paths" for Q y'
    proof -
      have "own_customers R st' paths Q y'
            = own_customers R ?st1 paths Q y' + (if y' = y \<and> Q = take (Suc k) q then 1 else 0)"
        using ih that by blast
      moreover have "take (Suc k) q \<noteq> take (Suc ?k) q"
        by (rule take_neq) (use Suc.prems(1) in simp_all)
      ultimately show ?thesis using o1[OF that, of y'] by auto
    qed
    have C: "st' p = st p" if "p \<notin> payload ` set (take (Suc ?k) q)" for p
    proof -
      from that sub have "p \<notin> payload ` set (take (Suc k) q)" by blast
      moreover from that payload_in_take[OF Suc.prems(1)] have "p \<noteq> ?pN" by blast
      ultimately show ?thesis using f2 by simp
    qed
    have D: "getC R (st' ?pN) y' = getC R (st ?pN) y' + (if y' = y then 1 else 0)" for y'
      using f2 notin c(2) by simp
    show ?thesis using A B C D by blast
  qed
qed


lemma addRemove_customers_inv:
  assumes wf: "dfs_wellformed paths" and q: "q \<in> set paths" and ac: "addRemove_contract R"
    and len: "length dP = length q"
  shows "nodes_consistent R st paths \<Longrightarrow>
     \<forall>P \<in> set paths. \<forall>y. 0 \<le> own_customers R st paths P y \<Longrightarrow>
     1 \<le> getC R (st (payload (last q))) y \<Longrightarrow>
     addRemove_customers n R q dP cP pdP ad y (pp, st, g) = Inr (pp', st', g') \<Longrightarrow>
     nodes_consistent R st' paths
     \<and> (\<forall>P \<in> set paths. \<forall>y'. own_customers R st' paths P y' = own_customers R st paths P y')
     \<and> getC R (st' (payload (last q))) = getC R (st (payload (last q)))"
proof (induction n arbitrary: pp st g)
  case 0
  then show ?case by simp
next
  case (Suc n)
  have ne: "q \<noteq> []" by (rule wf_nonempty[OF wf q])
  let ?k = "length q - 1"
  have k: "?k < length q" using ne by simp
  have lq: "last q = q ! ?k" using ne by (rule last_conv_nth)
  have j: "int (length dP) - 1 = int ?k" using ne len by (cases q) auto
  have sk: "Suc ?k = length q" using ne by simp
  from Suc.prems(4) obtain j1 st1 g1 pp1 st2 g2 where
    r: "addRemove_remove R q dP pdP ad y (int ?k) (st, g) = Inr (j1, st1, g1)"
    and a: "addRemove_add R q dP cP pdP ad y pp1 (int ?k) (st1, g1) = Inr (st2, g2)"
    and rec: "addRemove_customers n R q dP cP pdP ad y (pp1, st2, g2) = Inr (pp', st', g')"
    by (auto simp: j split: sum.splits prod.splits)
  have h: "\<forall>k' < ?k. 0 \<le> own_customers R st paths (take (Suc k') q) y"
  proof (intro allI impI)
    fix k' assume "k' < ?k"
    then have "take (Suc k') q \<in> set paths" by (intro wf_take[OF wf q]) simp
    then show "0 \<le> own_customers R st paths (take (Suc k') q) y" using Suc.prems(2) by blast
  qed
  have c: "1 \<le> getC R (st (payload (q ! ?k))) y" using Suc.prems(3) lq by simp
  note R1 = addRemove_remove_inv[OF wf q ac k Suc.prems(1) h c r]
  have n1: "nodes_consistent R st1 paths" using R1 by blast
  note A1 = addRemove_add_inv[OF wf q ac k n1 a]
  have n2: "nodes_consistent R st2 paths" using A1 by blast
  have o2: "own_customers R st2 paths P y' = own_customers R st paths P y'"
    if "P \<in> set paths" for P y'
  proof -
    have "own_customers R st1 paths P y'
          = own_customers R st paths P y' + (if y' = y \<and> P = take (Suc ?k) q then - 1 else 0)"
      using R1 that by blast
    moreover have "own_customers R st2 paths P y'
          = own_customers R st1 paths P y' + (if y' = y \<and> P = take (Suc ?k) q then 1 else 0)"
      using A1 that by blast
    ultimately show ?thesis by simp
  qed
  have c2: "getC R (st2 (payload (q ! ?k))) y' = getC R (st (payload (q ! ?k))) y'" for y'
  proof -
    have "getC R (st1 (payload (q ! ?k))) y'
          = getC R (st (payload (q ! ?k))) y' + (if y' = y then - 1 else 0)"
      using R1 by blast
    moreover have "getC R (st2 (payload (q ! ?k))) y'
          = getC R (st1 (payload (q ! ?k))) y' + (if y' = y then 1 else 0)"
      using A1 by blast
    ultimately show ?thesis by simp
  qed
  then have c2': "getC R (st2 (payload (last q))) = getC R (st (payload (last q)))"
    unfolding lq by blast
  have h2: "\<forall>P \<in> set paths. \<forall>y. 0 \<le> own_customers R st2 paths P y"
    using o2 Suc.prems(2) by simp
  have c3: "1 \<le> getC R (st2 (payload (last q))) y" using c2' Suc.prems(3) by simp
  from Suc.IH[OF n2 h2 c3 rec] o2 c2' show ?case by simp
qed

lemma addRemove_types_inv:
  assumes wf: "dfs_wellformed paths" and q: "q \<in> set paths"
    and ac: "addRemove_contract (restaurant E)"
    and len: "length dP = length q"
  shows "\<forall>y \<in> set types. 1 \<le> getC (restaurant E) (st (payload (last q))) y \<Longrightarrow>
     nodes_consistent (restaurant E) st paths \<Longrightarrow>
     \<forall>P \<in> set paths. \<forall>y. 0 \<le> own_customers (restaurant E) st paths P y \<Longrightarrow>
     addRemove_types E m q dP cP pdP ad types (st, g) = Inr (st', g') \<Longrightarrow>
     nodes_consistent (restaurant E) st' paths
     \<and> (\<forall>P \<in> set paths. \<forall>y'. own_customers (restaurant E) st' paths P y'
                               = own_customers (restaurant E) st paths P y')"
proof (induction types arbitrary: st g)
  case Nil
  then show ?case by simp
next
  case (Cons y types)
  show ?case
  proof (cases "getC (restaurant E) (st (payload (last q))) y = 1")
    case True
    with Cons.prems(4) have
      "addRemove_types E m q dP cP pdP ad types (st, g) = Inr (st', g')" by simp
    from Cons.IH[OF _ Cons.prems(2,3) this] Cons.prems(1) show ?thesis by simp
  next
    case False
    with Cons.prems(4) obtain pp pp1 st1 g1 where
      w: "addRemove_customers (nat (getC (restaurant E) (st (payload (last q))) y))
            (restaurant E) q dP cP pdP ad y (pp, st, g) = Inr (pp1, st1, g1)"
      and rec: "addRemove_types E m q dP cP pdP ad types (st1, g1) = Inr (st', g')"
      by (auto simp: Let_def split: sum.splits prod.splits)
    have c: "1 \<le> getC (restaurant E) (st (payload (last q))) y" using Cons.prems(1) by simp
    note d = addRemove_customers_inv[OF wf q ac len Cons.prems(2,3) c w]
    have n1: "nodes_consistent (restaurant E) st1 paths" using d by blast
    have o1: "\<forall>P \<in> set paths. \<forall>y'. own_customers (restaurant E) st1 paths P y'
                                     = own_customers (restaurant E) st paths P y'"
      using d by blast
    have h1: "\<forall>P \<in> set paths. \<forall>y. 0 \<le> own_customers (restaurant E) st1 paths P y"
      using o1 Cons.prems(3) by simp
    have "getC (restaurant E) (st1 (payload (last q)))
          = getC (restaurant E) (st (payload (last q)))"
      using d by blast
    then have t1: "\<forall>y \<in> set types. 1 \<le> getC (restaurant E) (st1 (payload (last q))) y"
      using Cons.prems(1) by simp
    from Cons.IH[OF t1 n1 h1 rec] o1 show ?thesis by simp
  qed
qed

lemma addRemoveSamplePath_inv:
  assumes wf: "dfs_wellformed paths" and q: "q \<in> set paths"
    and ac: "addRemove_contract (restaurant E)"
    and tc: "types_contract (restaurant E)"
    and nc: "nodes_consistent (restaurant E) (store m) paths"
    and h: "\<forall>P \<in> set paths. \<forall>y. 0 \<le> own_customers (restaurant E) (store m) paths P y"
    and run: "addRemoveSamplePath E m q dP cP pdP bp = Inr m'"
  shows "nodes_consistent (restaurant E) (store m') paths
     \<and> (\<forall>P \<in> set paths. \<forall>y'. own_customers (restaurant E) (store m') paths P y'
                               = own_customers (restaurant E) (store m) paths P y')
     \<and> tree m' = tree m"
proof -
  from run have pa: "path_asserts q dP cP"
    by (auto simp: addRemoveSamplePath_def split: if_splits)
  then have len: "length dP = length q" by (auto simp: path_asserts_def)
  from run pa obtain st' g' where
    t: "addRemove_types E m q dP cP pdP (length pdP = length q)
          (getTypeVector (restaurant E) (store m (payload (last q)))) (store m, rng m)
        = Inr (st', g')"
    and m': "m' = m\<lparr>store := st', rng := g'\<rparr>"
    by (auto simp: addRemoveSamplePath_def split: sum.splits)
  have ty: "\<forall>y \<in> set (getTypeVector (restaurant E) (store m (payload (last q)))).
              1 \<le> getC (restaurant E) (store m (payload (last q))) y"
    using tc unfolding types_contract_def by blast
  from addRemove_types_inv[OF wf q ac len ty nc h t] m' show ?thesis by simp
qed


lemma samplePath_inv:
  assumes wf: "dfs_wellformed paths" and q: "q \<in> set paths"
    and sc: "sweep_contract (restaurant E) U directGibbs"
    and nc: "nodes_consistent (restaurant E) (store m) paths"
    and h: "\<forall>P \<in> set paths. \<forall>y. 0 \<le> own_customers (restaurant E) (store m) paths P y"
    and run: "samplePath E U directGibbs m q tr = Inr m'"
  shows "nodes_consistent (restaurant E) (store m') paths
     \<and> (\<forall>P \<in> set paths. \<forall>y'. own_customers (restaurant E) (store m') paths P y'
                               = own_customers (restaurant E) (store m) paths P y')
     \<and> tree m' = tree m"
proof (cases directGibbs)
  case True
  with sc have c: "types_contract (restaurant E)" "compact_contract (restaurant E)"
    "utils_contract U" by (simp_all add: sweep_contract_def)
  from run True have
    "directGibbsSamplePath E U m q (tr_discountPath tr) (tr_concentrationPath tr)
       (tr_payloadDataPath tr) (baseProb m) = Inr m'"
    by (simp add: samplePath_def)
  from directGibbsSamplePath_inv[OF wf q c(2,3,1) nc h this] show ?thesis .
next
  case False
  with sc have c: "types_contract (restaurant E)" "addRemove_contract (restaurant E)"
    by (simp_all add: sweep_contract_def)
  from run False have
    "addRemoveSamplePath E m q (tr_discountPath tr) (tr_concentrationPath tr)
       (tr_payloadDataPath tr) (baseProb m) = Inr m'"
    by (simp add: samplePath_def)
  from addRemoveSamplePath_inv[OF wf q c(2,1) nc h this] show ?thesis .
qed

lemma runGibbsSampler_loop_inv:
  assumes wf: "dfs_wellformed paths"
    and sc: "sweep_contract (restaurant E) U directGibbs"
  shows "set ps \<subseteq> set paths \<Longrightarrow>
     nodes_consistent (restaurant E) (store m) paths \<Longrightarrow>
     \<forall>P \<in> set paths. \<forall>y. 0 \<le> own_customers (restaurant E) (store m) paths P y \<Longrightarrow>
     runGibbsSampler_loop E U directGibbs ps tr m = Inr m' \<Longrightarrow>
     nodes_consistent (restaurant E) (store m') paths
     \<and> (\<forall>P \<in> set paths. \<forall>y'. own_customers (restaurant E) (store m') paths P y'
                               = own_customers (restaurant E) (store m) paths P y')
     \<and> tree m' = tree m"
proof (induction ps arbitrary: tr m)
  case Nil
  then show ?case by simp
next
  case (Cons q ps)
  show ?case
  proof (cases "length q = 0")
    case True
    with Cons.prems show ?thesis by simp
  next
    case False
    with Cons.prems(4) obtain tr' m1 where
      s: "samplePath E U directGibbs m q tr' = Inr m1"
      and rec: "runGibbsSampler_loop E U directGibbs ps tr' m1 = Inr m'"
      by (auto split: sum.splits)
    have q: "q \<in> set paths" and ps: "set ps \<subseteq> set paths" using Cons.prems(1) by auto
    note d = samplePath_inv[OF wf q sc Cons.prems(2,3) s]
    have n1: "nodes_consistent (restaurant E) (store m1) paths" using d by blast
    have o1: "\<forall>P \<in> set paths. \<forall>y'. own_customers (restaurant E) (store m1) paths P y'
                                     = own_customers (restaurant E) (store m) paths P y'"
      using d by blast
    have h1: "\<forall>P \<in> set paths. \<forall>y. 0 \<le> own_customers (restaurant E) (store m1) paths P y"
      using o1 Cons.prems(3) by simp
    from Cons.IH[OF ps n1 h1 rec] o1 d show ?thesis by simp
  qed
qed

lemma own_customers_nonneg:
  assumes wf: "dfs_wellformed paths"
    and nc: "nodes_consistent R st paths" and hc: "hier_consistent R st paths"
    and P: "P \<in> set paths"
  shows "0 \<le> own_customers R st paths P y"
proof (cases "children paths P")
  case Nil
  have "node_consistent R (st (node_payload P))" using nc P by (simp add: nodes_consistent_def)
  then have "0 \<le> getC R (st (node_payload P)) y"
    unfolding node_consistent_def by (meson order_trans)
  then show ?thesis using Nil by (simp add: own_customers_def tables_of_children_def)
next
  case (Cons N rest)
  then have "N \<in> set (children paths P)" by simp
  then have N: "N \<in> set paths" "N \<noteq> []" "butlast N = P" by (auto simp: children_def)
  have "P \<noteq> []" by (rule wf_nonempty[OF wf P])
  then have "length (butlast N) \<noteq> 0" using N(3) by simp
  then have "2 \<le> length N" by simp
  with hc N show ?thesis unfolding hier_consistent_def own_customers_def by fastforce
qed

lemma hier_consistent_from_own:
  assumes wf: "dfs_wellformed paths"
    and h: "\<forall>P \<in> set paths. \<forall>y. 0 \<le> own_customers R st paths P y"
  shows "hier_consistent R st paths"
  unfolding hier_consistent_def
proof (intro ballI impI allI)
  fix N y assume N: "N \<in> set paths" "2 \<le> length N"
  have "take (Suc (length N - 2)) N \<in> set paths" by (rule wf_take[OF wf N(1)]) (use N(2) in simp)
  moreover have "take (Suc (length N - 2)) N = butlast N"
    using N(2) by (simp add: butlast_conv_take Suc_diff_Suc numeral_2_eq_2)
  ultimately have "butlast N \<in> set paths" by simp
  with h have "0 \<le> own_customers R st paths (butlast N) y" by blast
  then show "tables_of_children R st paths (butlast N) y
               \<le> getC R (st (node_payload (butlast N))) y"
    by (simp add: own_customers_def)
qed

text \<open>
  Claim C4, amended. A full sweep of \<open>runGibbsSampler\<close> in either mode that runs to its end
  preserves per-node consistency (with counts that are not negative) and hierarchical
  consistency, when the DFS iterator lists a tree and the collaborators keep their
  contracts. It does not leave \<open>c(root, y)\<close> as it was: what it leaves unchanged, at the
  root as at every node \<open>P\<close> and for every type \<open>y\<close>, is \<open>c(P, y)\<close> less the tables of type
  \<open>y\<close> in the children of \<open>P\<close>. The tree is left as it was.
\<close>

theorem gibbs_sweep_preserves_consistency:
  assumes "dfs_wellformed (getDFSPathIterator (contextTree E) (tree m))"
    and "sweep_contract (restaurant E) U directGibbs"
    and "nodes_consistent (restaurant E) (store m) (getDFSPathIterator (contextTree E) (tree m))"
    and "hier_consistent (restaurant E) (store m) (getDFSPathIterator (contextTree E) (tree m))"
    and "runGibbsSampler E U m directGibbs = Inr m'"
  shows "nodes_consistent (restaurant E) (store m')
           (getDFSPathIterator (contextTree E) (tree m'))
     \<and> hier_consistent (restaurant E) (store m')
           (getDFSPathIterator (contextTree E) (tree m'))
     \<and> (\<forall>P \<in> set (getDFSPathIterator (contextTree E) (tree m)). \<forall>y.
           own_customers (restaurant E) (store m') (getDFSPathIterator (contextTree E) (tree m)) P y
           = own_customers (restaurant E) (store m) (getDFSPathIterator (contextTree E) (tree m)) P y)
     \<and> tree m' = tree m"
proof -
  let ?paths = "getDFSPathIterator (contextTree E) (tree m)"
  let ?R = "restaurant E"
  have h: "\<forall>P \<in> set ?paths. \<forall>y. 0 \<le> own_customers ?R (store m) ?paths P y"
    using own_customers_nonneg[OF assms(1,3,4)] by blast
  from assms(5) obtain q rest tr m1 where
    ps: "?paths = q # rest"
    and s: "samplePath E U directGibbs m q tr = Inr m1"
    and l: "runGibbsSampler_loop E U directGibbs rest tr m1 = Inr m'"
    by (auto simp: runGibbsSampler_def split: list.splits sum.splits)
  have q: "q \<in> set ?paths" and rest: "set rest \<subseteq> set ?paths" using ps by auto
  note d = samplePath_inv[OF assms(1) q assms(2,3) h s]
  have n1: "nodes_consistent ?R (store m1) ?paths" using d by blast
  have o1: "\<forall>P \<in> set ?paths. \<forall>y'. own_customers ?R (store m1) ?paths P y'
                                   = own_customers ?R (store m) ?paths P y'"
    using d by blast
  have h1: "\<forall>P \<in> set ?paths. \<forall>y. 0 \<le> own_customers ?R (store m1) ?paths P y"
    using o1 h by simp
  note e = runGibbsSampler_loop_inv[OF assms(1,2) rest n1 h1 l]
  have t: "tree m' = tree m" using e d by simp
  have n': "nodes_consistent ?R (store m') ?paths" using e by blast
  have o': "\<forall>P \<in> set ?paths. \<forall>y. own_customers ?R (store m') ?paths P y
                                  = own_customers ?R (store m) ?paths P y"
    using e o1 by simp
  have h': "\<forall>P \<in> set ?paths. \<forall>y. 0 \<le> own_customers ?R (store m') ?paths P y"
    using o' h by simp
  have "hier_consistent ?R (store m') ?paths" by (rule hier_consistent_from_own[OF assms(1) h'])
  with n' o' t show ?thesis by simp
qed

lemma crp_getters:
  "getC (crp_restaurant draw n) r y = fst (r y)" "getT (crp_restaurant draw n) r y = snd (r y)"
  by (simp_all add: crp_restaurant_def)

lemma crp_node_consistent:
  "node_consistent (crp_restaurant draw n) r
   \<longleftrightarrow> (\<forall>y. 0 \<le> snd (r y) \<and> snd (r y) \<le> fst (r y) \<and> (1 \<le> snd (r y) \<longleftrightarrow> 1 \<le> fst (r y)))"
  by (simp add: node_consistent_def crp_getters)

lemma crp_addCustomer:
  assumes "addCustomer (crp_restaurant draw n) r y p d a extra w g = (w', r', g')"
  shows "r' = r(y := (fst (r y) + 1, snd (r y) + (if w' \<noteq> 0 then 1 else 0)))
         \<and> (fst (r y) = 0 \<longrightarrow> w' \<noteq> 0)"
proof (cases "fst (r y) = 0")
  case True
  with assms show ?thesis by (simp add: crp_restaurant_def)
next
  case False
  obtain b g1 where "draw g = (b, g1)" by (cases "draw g") auto
  with assms False show ?thesis by (cases b) (simp_all add: crp_restaurant_def)
qed

lemma crp_removeCustomer:
  assumes "removeCustomer (crp_restaurant draw n) r y d extra w g = (w', r', g')"
    and "1 \<le> fst (r y)"
  shows "r' = r(y := (fst (r y) - 1, snd (r y) - (if w' \<noteq> 0 then 1 else 0)))
         \<and> (w' \<noteq> 0 \<longrightarrow> fst (r y) = snd (r y) \<or> 2 \<le> snd (r y))
         \<and> (w' = 0 \<longrightarrow> fst (r y) \<noteq> snd (r y))"
proof -
  have p: "\<not> fst (r y) \<le> 0" using assms(2) by simp
  show ?thesis
  proof (cases "fst (r y) = snd (r y)")
    case True
    with assms(1) p show ?thesis by (simp add: crp_restaurant_def)
  next
    case ne: False
    show ?thesis
    proof (cases "snd (r y) \<le> 1")
      case True
      with assms(1) p ne show ?thesis by (simp add: crp_restaurant_def)
    next
      case False
      obtain b g1 where "draw g = (b, g1)" by (cases "draw g") auto
      with assms(1) p ne False show ?thesis by (cases b) (simp_all add: crp_restaurant_def)
    qed
  qed
qed

lemma crp_upd_consistent:
  assumes "\<forall>y. 0 \<le> snd (r y) \<and> snd (r y) \<le> fst (r y) \<and> (1 \<le> snd (r y) \<longleftrightarrow> 1 \<le> fst (r y))"
    and "0 \<le> t'" "t' \<le> c'" "1 \<le> t' \<longleftrightarrow> 1 \<le> c'"
  shows "node_consistent (crp_restaurant draw n) (r(y := (c', t')))"
  unfolding crp_node_consistent using assms by simp

lemma crp_addRemove_contract: "addRemove_contract (crp_restaurant draw n)"
  unfolding addRemove_contract_def
proof (intro conjI allI impI)
  fix r :: crp and y :: e_type and p d a :: real and extra :: "unit option" and w :: real
    and g :: 'a
  assume nc: "node_consistent (crp_restaurant draw n) r"
  then have c: "\<forall>y. 0 \<le> snd (r y) \<and> snd (r y) \<le> fst (r y) \<and> (1 \<le> snd (r y) \<longleftrightarrow> 1 \<le> fst (r y))"
    by (simp add: crp_node_consistent)
  have cy: "0 \<le> snd (r y)" "snd (r y) \<le> fst (r y)" "1 \<le> snd (r y) \<longleftrightarrow> 1 \<le> fst (r y)"
    using c by blast+
  obtain w' r' g' where res: "addCustomer (crp_restaurant draw n) r y p d a extra w g = (w', r', g')"
    by (cases "addCustomer (crp_restaurant draw n) r y p d a extra w g") auto
  note e = crp_addCustomer[OF res]
  let ?t = "snd (r y) + (if w' \<noteq> 0 then 1 else 0)"
  have r': "r' = r(y := (fst (r y) + 1, ?t))" using e by blast
  have "0 \<le> ?t" "?t \<le> fst (r y) + 1" using cy by auto
  moreover have "1 \<le> ?t \<longleftrightarrow> 1 \<le> fst (r y) + 1" using cy e by auto
  ultimately have "node_consistent (crp_restaurant draw n) r'"
    unfolding r' by (rule crp_upd_consistent[OF c])
  moreover have "\<forall>y'. getC (crp_restaurant draw n) r' y'
                     = getC (crp_restaurant draw n) r y' + (if y' = y then 1 else 0)"
    unfolding r' crp_getters by simp
  moreover have "\<forall>y'. getT (crp_restaurant draw n) r' y'
                     = getT (crp_restaurant draw n) r y' + (if y' = y \<and> w' \<noteq> 0 then 1 else 0)"
    unfolding r' crp_getters by simp
  ultimately show "case addCustomer (crp_restaurant draw n) r y p d a extra w g of
          (w', r', g') \<Rightarrow>
            node_consistent (crp_restaurant draw n) r'
            \<and> (\<forall>y'. getC (crp_restaurant draw n) r' y'
                     = getC (crp_restaurant draw n) r y' + (if y' = y then 1 else 0))
            \<and> (\<forall>y'. getT (crp_restaurant draw n) r' y'
                     = getT (crp_restaurant draw n) r y' + (if y' = y \<and> w' \<noteq> 0 then 1 else 0))"
    unfolding res by simp
next
  fix r :: crp and y :: e_type and d :: real and extra :: "unit option" and w :: real
    and g :: 'a
  assume "node_consistent (crp_restaurant draw n) r \<and> 1 \<le> getC (crp_restaurant draw n) r y"
  then have c: "\<forall>y. 0 \<le> snd (r y) \<and> snd (r y) \<le> fst (r y) \<and> (1 \<le> snd (r y) \<longleftrightarrow> 1 \<le> fst (r y))"
    and c1: "1 \<le> fst (r y)" by (simp_all add: crp_node_consistent crp_getters)
  have cy: "1 \<le> snd (r y)" "snd (r y) \<le> fst (r y)" using c c1 by blast+
  obtain w' r' g' where res: "removeCustomer (crp_restaurant draw n) r y d extra w g = (w', r', g')"
    by (cases "removeCustomer (crp_restaurant draw n) r y d extra w g") auto
  note e = crp_removeCustomer[OF res c1]
  let ?t = "snd (r y) - (if w' \<noteq> 0 then 1 else 0)"
  have r': "r' = r(y := (fst (r y) - 1, ?t))" using e by blast
  have "0 \<le> ?t" using cy by auto
  moreover have "?t \<le> fst (r y) - 1" using cy e by auto
  moreover have "1 \<le> ?t \<longleftrightarrow> 1 \<le> fst (r y) - 1" using cy e by auto
  ultimately have "node_consistent (crp_restaurant draw n) r'"
    unfolding r' by (rule crp_upd_consistent[OF c])
  moreover have "\<forall>y'. getC (crp_restaurant draw n) r' y'
                     = getC (crp_restaurant draw n) r y' - (if y' = y then 1 else 0)"
    unfolding r' crp_getters by simp
  moreover have "\<forall>y'. getT (crp_restaurant draw n) r' y'
                     = getT (crp_restaurant draw n) r y' - (if y' = y \<and> w' \<noteq> 0 then 1 else 0)"
    unfolding r' crp_getters by simp
  ultimately show "case removeCustomer (crp_restaurant draw n) r y d extra w g of
          (w', r', g') \<Rightarrow>
            node_consistent (crp_restaurant draw n) r'
            \<and> (\<forall>y'. getC (crp_restaurant draw n) r' y'
                     = getC (crp_restaurant draw n) r y' - (if y' = y then 1 else 0))
            \<and> (\<forall>y'. getT (crp_restaurant draw n) r' y'
                     = getT (crp_restaurant draw n) r y' - (if y' = y \<and> w' \<noteq> 0 then 1 else 0))"
    unfolding res by simp
qed

lemma crp_types_contract: "types_contract (crp_restaurant draw n)"
  by (simp add: types_contract_def crp_restaurant_def)

lemma crp_compact_contract: "compact_contract (crp_restaurant draw n)"
  by (simp add: compact_contract_def crp_restaurant_def)

lemma first_positive_range:
  "pdf \<noteq> [] \<Longrightarrow> 0 \<le> first_positive pdf \<and> first_positive pdf < int (length pdf)"
proof -
  have "\<not> list_all P xs \<Longrightarrow> length (takeWhile P xs) < length xs" for P and xs :: "xreal list"
    by (induction xs) auto
  then show "pdf \<noteq> [] \<Longrightarrow> 0 \<le> first_positive pdf \<and> first_positive pdf < int (length pdf)"
    by (auto simp: first_positive_def)
qed

lemma ref_utils_contract: "utils_contract ref_utils"
  unfolding utils_contract_def
proof (intro conjI allI impI)
  fix pdf :: "xreal list" and g :: "nat list"
  assume "pdf \<noteq> []"
  from first_positive_range[OF this]
  show "0 \<le> fst (sample_unnormalized_pdf ref_utils pdf 0 g)"
    and "fst (sample_unnormalized_pdf ref_utils pdf 0 g) < int (length pdf)"
    by (auto simp: ref_utils_def split: list.splits)
qed (simp_all add: ref_utils_def)

lemma chain_paths:
  "getDFSPathIterator (contextTree (ref_env draw)) (tree (busy_model g))
   = [[chain_node 0], [chain_node 0, chain_node 1]]"
  "getDFSPathIterator (contextTree (ref_env draw)) (tree (spread_model g))
   = [[chain_node 0], [chain_node 0, chain_node 1]]"
  by (simp_all add: ref_env_def chain_tree_def busy_model_def spread_model_def new_HPYPModel_def
      chain_def upt_rec)

lemma chain_wellformed: "dfs_wellformed [[chain_node 0], [chain_node 0, chain_node 1]]"
  by (simp add: dfs_wellformed_def node_payload_def chain_node_def atLeastAtMostSuc_conv)

lemma busy_consistent:
  "nodes_consistent (crp_restaurant draw 2) busy_store [[chain_node 0], [chain_node 0, chain_node 1]]"
  "hier_consistent (crp_restaurant draw 2) busy_store [[chain_node 0], [chain_node 0, chain_node 1]]"
  by (simp_all add: nodes_consistent_def hier_consistent_def crp_node_consistent busy_store_def
      node_payload_def chain_node_def tables_of_children_def children_def crp_getters)

lemma spread_consistent:
  "nodes_consistent (crp_restaurant draw 2) spread_store [[chain_node 0], [chain_node 0, chain_node 1]]"
  "hier_consistent (crp_restaurant draw 2) spread_store [[chain_node 0], [chain_node 0, chain_node 1]]"
  by (simp_all add: nodes_consistent_def hier_consistent_def crp_node_consistent spread_store_def
      node_payload_def chain_node_def tables_of_children_def children_def crp_getters)

lemma ref_sweep_contract:
  "sweep_contract (restaurant (ref_env draw)) ref_utils directGibbs"
  by (simp add: sweep_contract_def ref_env_def crp_types_contract crp_compact_contract
      crp_addRemove_contract ref_utils_contract)

lemmas gs_defs = runGibbsSampler_def samplePath_def directGibbsSamplePath_def
  init_traversal_def next_traversal_def path_asserts_def makeAdditionalDataPtr_def pop_back_def
  vec_back_def directGibbs_round_def directGibbs_logProbs_def directGibbs_write_def
  combine_logProbs_def
  busy_model_def busy_store_def ref_utils_def first_positive_def crp_restaurant_def
  crp_c_def crp_t_def crp_types_def const_parameters_def Let_def

lemma busy_direct_sweep:
  "map_sum id (\<lambda>m'. (store m' 0 0, store m' 1 0))
     (runGibbsSampler (ref_env coin) ref_utils (busy_model [0, 1, 0]) True)
   = Inr ((3, 1), (2, 2))"
  by (simp add: gs_defs chain_defs directGibbs_while_once refill_payloadDataPath.simps
      upto.simps eval_nat_numeral)

lemma spread_addRemove_sweep:
  "map_sum id (\<lambda>m'. (store m' 0 0, store m' 1 0))
     (runGibbsSampler (ref_env coin) ref_utils (spread_model []) False)
   = Inr ((1, 1), (2, 1))"
  by (simp add: gs_defs chain_defs addRemoveSamplePath_def spread_model_def spread_store_def
      addRemove_remove.simps addRemove_add.simps addRemove_recompute.simps
      refill_payloadDataPath.simps eval_nat_numeral)

text \<open>
  Two consistent seatings on the chain of two nodes in which a sweep changes the number
  of customers of type 0 at the root: in direct mode the child is given a second table
  and the root a third customer; in add/remove mode the child loses one of its two
  tables and the root one of its two customers. The pairs are \<open>(c, t)\<close> of type 0.
\<close>

theorem gibbs_sweep_counterexample:
  "store (busy_model [0, 1, 0 :: nat]) 0 0 = (2, 1)
   \<and> map_sum id (\<lambda>m'. store m' 0 0)
        (runGibbsSampler (ref_env coin) ref_utils (busy_model [0, 1, 0]) True) = Inr (3, 1)
   \<and> store (spread_model ([] :: nat list)) 0 0 = (2, 1)
   \<and> map_sum id (\<lambda>m'. store m' 0 0)
        (runGibbsSampler (ref_env coin) ref_utils (spread_model []) False) = Inr (1, 1)"
proof -
  have "store (busy_model [0, 1, 0 :: nat]) 0 0 = (2, 1)"
    "store (spread_model ([] :: nat list)) 0 0 = (2, 1)"
    by (simp_all add: busy_model_def busy_store_def spread_model_def spread_store_def
        new_HPYPModel_def)
  moreover have "map_sum id (\<lambda>m'. store m' 0 0)
        (runGibbsSampler (ref_env coin) ref_utils (busy_model [0, 1, 0]) True) = Inr (3, 1)"
    using busy_direct_sweep
    by (cases "runGibbsSampler (ref_env coin) ref_utils (busy_model [0, 1, 0]) True") simp_all
  moreover have "map_sum id (\<lambda>m'. store m' 0 0)
        (runGibbsSampler (ref_env coin) ref_utils (spread_model []) False) = Inr (1, 1)"
    using spread_addRemove_sweep
    by (cases "runGibbsSampler (ref_env coin) ref_utils (spread_model []) False") simp_all
  ultimately show ?thesis by blast
qed

theorem gibbs_sweep_preserves_consistency_witness:
  "dfs_wellformed (getDFSPathIterator (contextTree (ref_env coin)) (tree (busy_model [0, 1, 0 :: nat])))
   \<and> sweep_contract (restaurant (ref_env coin)) ref_utils True
   \<and> nodes_consistent (restaurant (ref_env coin)) (store (busy_model [0, 1, 0 :: nat]))
        (getDFSPathIterator (contextTree (ref_env coin)) (tree (busy_model [0, 1, 0 :: nat])))
   \<and> hier_consistent (restaurant (ref_env coin)) (store (busy_model [0, 1, 0 :: nat]))
        (getDFSPathIterator (contextTree (ref_env coin)) (tree (busy_model [0, 1, 0 :: nat])))
   \<and> (\<exists>m'. runGibbsSampler (ref_env coin) ref_utils (busy_model [0, 1, 0]) True = Inr m'
         \<and> store m' 0 0 = (3, 1) \<and> store m' 1 0 = (2, 2)
         \<and> nodes_consistent (restaurant (ref_env coin)) (store m')
              (getDFSPathIterator (contextTree (ref_env coin)) (tree m'))
         \<and> hier_consistent (restaurant (ref_env coin)) (store m')
              (getDFSPathIterator (contextTree (ref_env coin)) (tree m'))
         \<and> own_customers (restaurant (ref_env coin)) (store m')
              [[chain_node 0], [chain_node 0, chain_node 1]] [chain_node 0] 0
            = own_customers (restaurant (ref_env coin)) (store (busy_model [0, 1, 0 :: nat]))
                [[chain_node 0], [chain_node 0, chain_node 1]] [chain_node 0] 0
         \<and> tree m' = tree (busy_model [0, 1, 0 :: nat]))
   \<and> sweep_contract (restaurant (ref_env coin)) ref_utils False
   \<and> nodes_consistent (restaurant (ref_env coin)) (store (spread_model ([] :: nat list)))
        (getDFSPathIterator (contextTree (ref_env coin)) (tree (spread_model ([] :: nat list))))
   \<and> hier_consistent (restaurant (ref_env coin)) (store (spread_model ([] :: nat list)))
        (getDFSPathIterator (contextTree (ref_env coin)) (tree (spread_model ([] :: nat list))))
   \<and> (\<exists>m'. runGibbsSampler (ref_env coin) ref_utils (spread_model []) False = Inr m'
         \<and> store m' 0 0 = (1, 1) \<and> store m' 1 0 = (2, 1)
         \<and> nodes_consistent (restaurant (ref_env coin)) (store m')
              (getDFSPathIterator (contextTree (ref_env coin)) (tree m'))
         \<and> hier_consistent (restaurant (ref_env coin)) (store m')
              (getDFSPathIterator (contextTree (ref_env coin)) (tree m'))
         \<and> own_customers (restaurant (ref_env coin)) (store m')
              [[chain_node 0], [chain_node 0, chain_node 1]] [chain_node 0] 0
            = own_customers (restaurant (ref_env coin)) (store (spread_model ([] :: nat list)))
                [[chain_node 0], [chain_node 0, chain_node 1]] [chain_node 0] 0
         \<and> tree m' = tree (spread_model ([] :: nat list)))"
proof -
  let ?E = "ref_env coin"
  let ?b = "busy_model [0, 1, 0 :: nat]"
  let ?s = "spread_model ([] :: nat list)"
  let ?ps = "[[chain_node 0], [chain_node 0, chain_node 1]]"
  have R: "restaurant ?E = crp_restaurant coin 2" by (simp add: ref_env_def)
  have sb: "store ?b = busy_store" "store ?s = spread_store"
    by (simp_all add: busy_model_def spread_model_def new_HPYPModel_def)
  have wfb: "dfs_wellformed (getDFSPathIterator (contextTree ?E) (tree ?b))"
    and wfs: "dfs_wellformed (getDFSPathIterator (contextTree ?E) (tree ?s))"
    unfolding chain_paths by (rule chain_wellformed)+
  have ncb: "nodes_consistent (restaurant ?E) (store ?b)
               (getDFSPathIterator (contextTree ?E) (tree ?b))"
    and hcb: "hier_consistent (restaurant ?E) (store ?b)
               (getDFSPathIterator (contextTree ?E) (tree ?b))"
    unfolding chain_paths R sb by (rule busy_consistent)+
  have ncs: "nodes_consistent (restaurant ?E) (store ?s)
               (getDFSPathIterator (contextTree ?E) (tree ?s))"
    and hcs: "hier_consistent (restaurant ?E) (store ?s)
               (getDFSPathIterator (contextTree ?E) (tree ?s))"
    unfolding chain_paths R sb by (rule spread_consistent)+
  obtain mb where rb: "runGibbsSampler ?E ref_utils ?b True = Inr mb"
    and vb: "store mb 0 0 = (3, 1)" "store mb 1 0 = (2, 2)"
    using busy_direct_sweep by (cases "runGibbsSampler ?E ref_utils ?b True") simp_all
  obtain ms where rs: "runGibbsSampler ?E ref_utils ?s False = Inr ms"
    and vs: "store ms 0 0 = (1, 1)" "store ms 1 0 = (2, 1)"
    using spread_addRemove_sweep by (cases "runGibbsSampler ?E ref_utils ?s False") simp_all
  note tb = gibbs_sweep_preserves_consistency[OF wfb ref_sweep_contract ncb hcb rb]
  note ts = gibbs_sweep_preserves_consistency[OF wfs ref_sweep_contract ncs hcs rs]
  have ob: "own_customers (restaurant ?E) (store mb) ?ps [chain_node 0] 0
            = own_customers (restaurant ?E) (store ?b) ?ps [chain_node 0] 0"
    using tb unfolding chain_paths by simp
  have os: "own_customers (restaurant ?E) (store ms) ?ps [chain_node 0] 0
            = own_customers (restaurant ?E) (store ?s) ?ps [chain_node 0] 0"
    using ts unfolding chain_paths by simp
  have "\<exists>m'. runGibbsSampler ?E ref_utils ?b True = Inr m'
         \<and> store m' 0 0 = (3, 1) \<and> store m' 1 0 = (2, 2)
         \<and> nodes_consistent (restaurant ?E) (store m')
              (getDFSPathIterator (contextTree ?E) (tree m'))
         \<and> hier_consistent (restaurant ?E) (store m')
              (getDFSPathIterator (contextTree ?E) (tree m'))
         \<and> own_customers (restaurant ?E) (store m') ?ps [chain_node 0] 0
            = own_customers (restaurant ?E) (store ?b) ?ps [chain_node 0] 0
         \<and> tree m' = tree ?b"
    using rb vb tb ob by blast
  moreover have "\<exists>m'. runGibbsSampler ?E ref_utils ?s False = Inr m'
         \<and> store m' 0 0 = (1, 1) \<and> store m' 1 0 = (2, 1)
         \<and> nodes_consistent (restaurant ?E) (store m')
              (getDFSPathIterator (contextTree ?E) (tree m'))
         \<and> hier_consistent (restaurant ?E) (store m')
              (getDFSPathIterator (contextTree ?E) (tree m'))
         \<and> own_customers (restaurant ?E) (store m') ?ps [chain_node 0] 0
            = own_customers (restaurant ?E) (store ?s) ?ps [chain_node 0] 0
         \<and> tree m' = tree ?s"
    using rs vs ts os by blast
  ultimately show ?thesis
    using wfb ncb hcb ncs hcs ref_sweep_contract[of coin True] ref_sweep_contract[of coin False]
    by blast
qed

end
